theory Spec2Isabelle
  imports Complex_Main "HOL-Library.Word"
begin

unbundle bit_operations_syntax

section \<open>JavaScript strings\<close>

text \<open>
  A JavaScript string is a sequence of UTF-16 code units; \<^verbatim>\<open>split("")\<close> cuts it
  into its code units. The characters of the default text are the code units
  27704, 21644, 20061 and 24180.
\<close>

type_synonym code_unit = nat
type_synonym jsstring = "code_unit list"

text \<open>
  The code units matched by the regular expression class \<^verbatim>\<open>\s\<close>; \<^verbatim>\<open>trim()\<close>
  strips the same set (white space and line terminators), and \<^verbatim>\<open>/\S/.test(c)\<close>
  on a one-unit string is its negation.
\<close>

definition isWhiteSpace :: "code_unit \<Rightarrow> bool" where
  "isWhiteSpace c \<longleftrightarrow>
     c = 9 \<or> c = 10 \<or> c = 11 \<or> c = 12 \<or> c = 13 \<or> c = 32 \<or> c = 160 \<or> c = 5760 \<or>
     (8192 \<le> c \<and> c \<le> 8202) \<or> c = 8232 \<or> c = 8233 \<or> c = 8239 \<or> c = 8287 \<or>
     c = 12288 \<or> c = 65279"

definition trim :: "jsstring \<Rightarrow> jsstring" where
  "trim s = rev (dropWhile isWhiteSpace (rev (dropWhile isWhiteSpace s)))"

text \<open>A string is truthy when it is not empty.\<close>

definition truthy :: "jsstring \<Rightarrow> bool" where
  "truthy s \<longleftrightarrow> s \<noteq> []"

text \<open>\<^verbatim>\<open>haystack.includes(needle)\<close>: the needle occurs as a contiguous run.\<close>

fun startsWith :: "jsstring \<Rightarrow> jsstring \<Rightarrow> bool" where
  "startsWith s [] = True"
| "startsWith [] (n # ns) = False"
| "startsWith (c # cs) (n # ns) = (c = n \<and> startsWith cs ns)"

fun includes_str :: "jsstring \<Rightarrow> jsstring \<Rightarrow> bool" where
  "includes_str [] needle = (needle = [])"
| "includes_str (c # cs) needle = (startsWith (c # cs) needle \<or> includes_str cs needle)"

section \<open>Parsed JSON values\<close>

datatype json =
    JNull
  | JBool bool
  | JNum int
  | JStr jsstring
  | JArr "json list"
  | JObj "(jsstring \<times> json) list"

text \<open>The truthiness test of \<^verbatim>\<open>if (v)\<close> on a parsed JSON value.\<close>

fun json_truthy :: "json \<Rightarrow> bool" where
  "json_truthy JNull = False"
| "json_truthy (JBool b) = b"
| "json_truthy (JNum n) = (n \<noteq> 0)"
| "json_truthy (JStr s) = (s \<noteq> [])"
| "json_truthy (JArr xs) = True"
| "json_truthy (JObj kvs) = True"

section \<open>Navigation state (App.tsx)\<close>

text \<open>
  The React state of the App component. A handler is a closure of one render: it
  reads the state variables of that render (the snapshot \<open>r\<close>) and its setters act on
  the latest state \<open>s\<close>; a setter called with a value overwrites the field, a setter
  called with an updater function (\<^verbatim>\<open>prev => prev + 1\<close>) transforms the latest value.
\<close>

record app_state =
  inputText :: jsstring
  activeText :: jsstring
  currentIndex :: int
  insights :: json
  isLoadingInsights :: bool
  isSpeaking :: bool
  isSimplified :: bool
  useCloudVoice :: bool

text \<open>\<^verbatim>\<open>activeText.split("").filter((c) => /\S/.test(c))\<close>\<close>

definition nonWhitespace :: "jsstring \<Rightarrow> jsstring list" where
  "nonWhitespace t = map (\<lambda>c. [c]) (filter (\<lambda>c. \<not> isWhiteSpace c) t)"

definition characters :: "app_state \<Rightarrow> jsstring list" where
  "characters r = nonWhitespace (activeText r)"

text \<open>
  \<^verbatim>\<open>characters[currentIndex] || ""\<close>: an index outside the array reads
  \<^verbatim>\<open>undefined\<close>, which the \<^verbatim>\<open>||\<close> turns into the empty string.
\<close>

definition currentChar :: "app_state \<Rightarrow> jsstring" where
  "currentChar r =
     (if 0 \<le> currentIndex r \<and> currentIndex r < int (length (characters r))
      then characters r ! nat (currentIndex r) else [])"

text \<open>
  The script converters of the conversion library are parameters:
  \<open>cn2tw\<close> and \<open>tw2cn\<close>.
\<close>

definition handleUpdateText ::
  "(jsstring \<Rightarrow> jsstring) \<Rightarrow> (jsstring \<Rightarrow> jsstring) \<Rightarrow> app_state \<Rightarrow> app_state \<Rightarrow> app_state" where
  "handleUpdateText cn2tw tw2cn r s =
     (if truthy (trim (inputText r)) then
        let convertedText = (if isSimplified r then tw2cn (inputText r) else cn2tw (inputText r))
        in s\<lparr>activeText := convertedText, inputText := convertedText, currentIndex := 0\<rparr>
      else s)"

text \<open>The second App component (kept in the file of WritingBoard.tsx) stores the input as it is.\<close>

definition handleUpdateText_alt :: "app_state \<Rightarrow> app_state \<Rightarrow> app_state" where
  "handleUpdateText_alt r s =
     (if truthy (trim (inputText r)) then s\<lparr>activeText := inputText r, currentIndex := 0\<rparr>
      else s)"

definition handleNext :: "app_state \<Rightarrow> app_state \<Rightarrow> app_state" where
  "handleNext r s =
     (if currentIndex r < int (length (characters r)) - 1
      then s\<lparr>currentIndex := currentIndex s + 1\<rparr> else s)"

definition handlePrev :: "app_state \<Rightarrow> app_state \<Rightarrow> app_state" where
  "handlePrev r s =
     (if currentIndex r > 0 then s\<lparr>currentIndex := currentIndex s - 1\<rparr> else s)"

text \<open>
  The events that move the position. A click runs the handler of the current render.
  The quiz board's \<^verbatim>\<open>onComplete\<close> schedules, with \<^verbatim>\<open>setTimeout(handleNext, 1200)\<close>,
  the \<^verbatim>\<open>handleNext\<close> of the render in which the quiz completed; the pending timers
  hold that render's snapshot until they fire.
\<close>

datatype nav_event = ClickNext | ClickPrev | ClickThumb nat | QuizComplete | TimerFires

record ui =
  app :: app_state
  timers :: "app_state list"

fun nav_step :: "ui \<Rightarrow> nav_event \<Rightarrow> ui" where
  "nav_step u ClickNext = u\<lparr>app := handleNext (app u) (app u)\<rparr>"
| "nav_step u ClickPrev = u\<lparr>app := handlePrev (app u) (app u)\<rparr>"
| "nav_step u (ClickThumb idx) =
     (if idx < length (characters (app u)) then u\<lparr>app := (app u)\<lparr>currentIndex := int idx\<rparr>\<rparr> else u)"
| "nav_step u QuizComplete =
     (if currentIndex (app u) < int (length (characters (app u))) - 1
      then u\<lparr>timers := timers u @ [app u]\<rparr> else u)"
| "nav_step u TimerFires =
     (case timers u of
        [] \<Rightarrow> u
      | r # rs \<Rightarrow> u\<lparr>app := handleNext r (app u), timers := rs\<rparr>)"

definition nav_run :: "ui \<Rightarrow> nav_event list \<Rightarrow> ui" where
  "nav_run u evs = foldl nav_step u evs"

definition index_in_range :: "app_state \<Rightarrow> bool" where
  "index_in_range s \<longleftrightarrow> 0 \<le> currentIndex s \<and> currentIndex s < int (length (characters s))"

text \<open>The initial state of the component: the default text, position 0.\<close>

definition DEFAULT_TEXT :: jsstring where
  "DEFAULT_TEXT = [27704, 21644, 20061, 24180]"

definition initial_state :: app_state where
  "initial_state =
     \<lparr>inputText = DEFAULT_TEXT, activeText = DEFAULT_TEXT, currentIndex = 0,
      insights = JNull, isLoadingInsights = False, isSpeaking = False,
      isSimplified = False, useCloudVoice = False\<rparr>"

text \<open>Position 2 of the default text, and the same with a blank input field.\<close>

definition third_char_state :: app_state where
  "third_char_state = initial_state\<lparr>currentIndex := 2\<rparr>"

definition blank_input_state :: app_state where
  "blank_input_state = initial_state\<lparr>inputText := [32, 9], currentIndex := 2\<rparr>"











section \<open>Retry wrapper (geminiService.ts)\<close>

text \<open>
  A promise settles as fulfilled with a value or rejected with whatever was thrown,
  and the \<^verbatim>\<open>catch\<close> takes any value. \<open>JsError name m\<close> is an error object with its
  name and the value of its \<^verbatim>\<open>message\<close> property (\<open>JNull\<close> when the property is
  missing, undefined or null). \<open>Thrown v\<close> is any other thrown value: \<^verbatim>\<open>null\<close> or
  \<^verbatim>\<open>undefined\<close> (\<open>Thrown JNull\<close>), a string, a number, a boolean, an array or a plain
  object.
\<close>

datatype js_error = JsError string json | Thrown json

datatype 'a settled = Fulfilled 'a | Rejected js_error

definition type_error :: js_error where
  "type_error = JsError ''TypeError'' JNull"

definition key_message :: jsstring where
  "key_message = [109, 101, 115, 115, 97, 103, 101]"

text \<open>
  Reading \<^verbatim>\<open>error.message\<close>: it throws a type error when the thrown value is
  \<^verbatim>\<open>null\<close> or \<^verbatim>\<open>undefined\<close> (\<open>None\<close>); a plain object gives the property (a later
  binding of the key overrides an earlier one); strings, numbers, booleans and
  arrays have no such property.
\<close>

fun read_message :: "js_error \<Rightarrow> json option" where
  "read_message (JsError name m) = Some m"
| "read_message (Thrown JNull) = None"
| "read_message (Thrown (JObj kvs)) =
     Some (case map_of (rev kvs) key_message of None \<Rightarrow> JNull | Some m \<Rightarrow> m)"
| "read_message (Thrown v) = Some JNull"

text \<open>
  \<^verbatim>\<open>message?.includes('429')\<close>, the code units of \<^verbatim>\<open>'429'\<close> being 52, 50, 57: a
  missing message gives \<^verbatim>\<open>undefined\<close>, which is falsy; a string is searched for
  the text; an array is searched for the element; a number, a boolean or a plain
  object has no method \<^verbatim>\<open>includes\<close>, and the call throws a type error (\<open>None\<close>).
\<close>

fun message_includes_429 :: "json \<Rightarrow> bool option" where
  "message_includes_429 JNull = Some False"
| "message_includes_429 (JStr m) = Some (includes_str m [52, 50, 57])"
| "message_includes_429 (JArr xs) = Some (JStr [52, 50, 57] \<in> set xs)"
| "message_includes_429 v = None"

text \<open>\<^verbatim>\<open>error.message?.includes('429')\<close>\<close>

definition rate_limit_test :: "js_error \<Rightarrow> bool option" where
  "rate_limit_test error =
     (case read_message error of None \<Rightarrow> None | Some m \<Rightarrow> message_includes_429 m)"

text \<open>
  The operation \<open>fn\<close> is given by what its successive invocations settle to:
  \<open>fn k\<close> is the outcome of invocation number \<open>k\<close>, and \<open>n\<close> counts the invocations
  made so far. The wrapper returns the outcome together with what it did, in order:
  \<open>Attempt k\<close> for invocation \<open>k\<close> of the operation, \<open>Delay d\<close> for a
  \<^verbatim>\<open>setTimeout\<close> wait of \<open>d\<close> milliseconds. The test of the message runs only while
  budget remains; a type error it throws leaves the \<^verbatim>\<open>catch\<close> block in place of the
  failure that was caught.
\<close>

datatype retry_event = Attempt nat | Delay int

function withRetry ::
  "(nat \<Rightarrow> 'a settled) \<Rightarrow> nat \<Rightarrow> int \<Rightarrow> int \<Rightarrow> 'a settled \<times> retry_event list" where
  "withRetry fn n retries delay =
     (case fn n of
        Fulfilled v \<Rightarrow> (Fulfilled v, [Attempt n])
      | Rejected error \<Rightarrow>
          if retries > 0 then
            (case rate_limit_test error of
               None \<Rightarrow> (Rejected type_error, [Attempt n])
             | Some signal \<Rightarrow>
                 if signal then
                   (case withRetry fn (Suc n) (retries - 1) (delay * 2) of
                      (res, tr) \<Rightarrow> (res, Attempt n # Delay delay # tr))
                 else (Rejected error, [Attempt n]))
          else (Rejected error, [Attempt n]))"
  by pat_completeness auto
termination
  by (relation "measure (\<lambda>(fn, n, retries, delay). nat retries)") auto

declare withRetry.simps [simp del]

fun attempts :: "retry_event list \<Rightarrow> nat list" where
  "attempts [] = []"
| "attempts (Attempt k # tr) = k # attempts tr"
| "attempts (Delay d # tr) = attempts tr"

fun delays :: "retry_event list \<Rightarrow> int list" where
  "delays [] = []"
| "delays (Attempt k # tr) = delays tr"
| "delays (Delay d # tr) = d # delays tr"

text \<open>
  The rate-limit signal as the specification has it: the failure has a message that
  is a text in which 429 occurs. A plain failure is one whose message is missing or
  a text.
\<close>

definition occurs_in :: "jsstring \<Rightarrow> jsstring \<Rightarrow> bool" where
  "occurs_in needle m \<longleftrightarrow>
     (\<exists>i \<in> set [0..<Suc (length m)]. take (length needle) (drop i m) = needle)"

definition carries_429 :: "js_error \<Rightarrow> bool" where
  "carries_429 error =
     (case read_message error of
        Some (JStr m) \<Rightarrow> occurs_in [52, 50, 57] m
      | other \<Rightarrow> False)"

definition plain_failure :: "js_error \<Rightarrow> bool" where
  "plain_failure error =
     (case read_message error of
        Some JNull \<Rightarrow> True
      | Some (JStr m) \<Rightarrow> True
      | other \<Rightarrow> False)"

text \<open>
  Sample operations: one that is rate-limited twice and then succeeds; one that
  fails with a server error that is not a rate limit; one whose promise is rejected
  with \<^verbatim>\<open>null\<close>; one that fails with an error whose message is the number 503.
\<close>

definition rate_limit_error :: js_error where
  "rate_limit_error = JsError ''ApiError'' (JStr [52, 50, 57])"

definition flaky :: "nat \<Rightarrow> nat settled" where
  "flaky k = (if k < 2 then Rejected rate_limit_error else Fulfilled 7)"

definition server_error :: js_error where
  "server_error = JsError ''ApiError'' (JStr [53, 48, 48, 32, 100, 111, 119, 110])"

definition rejects_server_error :: "nat \<Rightarrow> nat settled" where
  "rejects_server_error k = Rejected server_error"

definition rejects_null :: "nat \<Rightarrow> nat settled" where
  "rejects_null k = Rejected (Thrown JNull)"

definition status_error :: js_error where
  "status_error = JsError ''Error'' (JNum 503)"

definition rejects_status :: "nat \<Rightarrow> nat settled" where
  "rejects_status k = Rejected status_error"

text \<open>
  The trace of a run that retries \<open>m\<close> times, counting invocations from \<open>n\<close>: each
  of the first \<open>m\<close> invocations is followed by a wait, the waits are \<open>d\<close>, \<open>2d\<close>,
  \<open>4d\<close>, ..., and a last invocation ends the run.
\<close>

definition retry_trace :: "nat \<Rightarrow> int \<Rightarrow> nat \<Rightarrow> retry_event list" where
  "retry_trace n d m = concat (map (\<lambda>i. [Attempt (n + i), Delay (d * 2 ^ i)]) [0..<m]) @ [Attempt (n + m)]"

section \<open>Audio decoder (geminiService.ts)\<close>

type_synonym byte = "8 word"

text \<open>
  \<^verbatim>\<open>new Int16Array(data.buffer, data.byteOffset, data.byteLength / 2)\<close>: the bytes
  of the view (which \<^verbatim>\<open>decodeBase64\<close> allocates at offset 0) read in pairs, low
  byte first; the length is truncated to an integer, so a trailing odd byte is
  left out.
\<close>

fun Int16Array :: "byte list \<Rightarrow> 16 word list" where
  "Int16Array (lo # hi # rest) = word_cat hi lo # Int16Array rest"
| "Int16Array rest = []"

text \<open>A value stored in a \<^verbatim>\<open>Float32Array\<close>.\<close>

datatype float32 = Val real | NaN

text \<open>
  \<^verbatim>\<open>dataInt16[j] / 32768.0\<close>: a read outside the array is \<^verbatim>\<open>undefined\<close>, and
  dividing it gives \<^verbatim>\<open>NaN\<close>.
\<close>

definition sample_at :: "16 word list \<Rightarrow> nat \<Rightarrow> float32" where
  "sample_at dataInt16 j =
     (if j < length dataInt16 then Val (real_of_int (sint (dataInt16 ! j)) / 32768) else NaN)"

text \<open>The quotient \<^verbatim>\<open>dataInt16.length / numChannels\<close> of two non-negative integers.\<close>

datatype jsnum = Finite rat | Infinite | NotANumber

definition js_divide :: "nat \<Rightarrow> nat \<Rightarrow> jsnum" where
  "js_divide a b =
     (if b = 0 then (if a = 0 then NotANumber else Infinite) else Finite (of_nat a / of_nat b))"

text \<open>An \<^verbatim>\<open>AudioBuffer\<close>: one \<^verbatim>\<open>Float32Array\<close> per channel.\<close>

type_synonym audio_buffer = "float32 list list"

text \<open>
  The inner loop. A write at an index outside the typed array is ignored, as
  list update outside the list is.
\<close>

function frame_loop ::
  "16 word list \<Rightarrow> nat \<Rightarrow> nat \<Rightarrow> rat \<Rightarrow> nat \<Rightarrow> float32 list \<Rightarrow> float32 list" where
  "frame_loop dataInt16 numChannels channel frameCount i channelData =
     (if of_nat i < frameCount then
        frame_loop dataInt16 numChannels channel frameCount (Suc i)
          (channelData[i := sample_at dataInt16 (i * numChannels + channel)])
      else channelData)"
  by pat_completeness auto
termination
  by (relation "measure (\<lambda>(dataInt16, numChannels, channel, frameCount, i, channelData).
        nat \<lceil>frameCount\<rceil> - i)")
     (auto simp: zless_nat_eq_int_zless less_ceiling_iff intro!: diff_less_mono2)

declare frame_loop.simps [simp del]

text \<open>
  The outer loop. \<^verbatim>\<open>getChannelData(channel)\<close> throws when the buffer has no such
  channel; the array it returns is the buffer's own, so the writes land in the buffer.
\<close>

definition index_size_error :: js_error where
  "index_size_error = JsError ''IndexSizeError'' JNull"

function channel_loop ::
  "16 word list \<Rightarrow> nat \<Rightarrow> rat \<Rightarrow> nat \<Rightarrow> audio_buffer \<Rightarrow> js_error + audio_buffer" where
  "channel_loop dataInt16 numChannels frameCount channel buffer =
     (if channel < numChannels then
        (if channel < length buffer then
           channel_loop dataInt16 numChannels frameCount (Suc channel)
             (buffer[channel :=
                frame_loop dataInt16 numChannels channel frameCount 0 (buffer ! channel)])
         else Inl index_size_error)
      else Inr buffer)"
  by pat_completeness auto
termination
  by (relation "measure (\<lambda>(dataInt16, numChannels, frameCount, channel, buffer).
        numChannels - channel)") auto

declare channel_loop.simps [simp del]

text \<open>
  The audio context is a parameter of the function, here its method
  \<^verbatim>\<open>createBuffer(numChannels, frameCount, sampleRate)\<close>, which returns a buffer or
  throws. With no channels the frame count is not finite and neither loop runs.
\<close>

definition decodeAudioData ::
  "byte list \<Rightarrow> (nat \<Rightarrow> jsnum \<Rightarrow> nat \<Rightarrow> js_error + audio_buffer) \<Rightarrow> nat \<Rightarrow> nat
     \<Rightarrow> js_error + audio_buffer" where
  "decodeAudioData data createBuffer sampleRate numChannels =
     (let dataInt16 = Int16Array data;
          frameCount = js_divide (length dataInt16) numChannels
      in case createBuffer numChannels frameCount sampleRate of
           Inl e \<Rightarrow> Inl e
         | Inr buffer \<Rightarrow>
             (case frameCount of
                Finite q \<Rightarrow> channel_loop dataInt16 numChannels q 0 buffer
              | Infinite \<Rightarrow> Inr buffer
              | NotANumber \<Rightarrow> Inr buffer))"

text \<open>
  A context that allocates: silent channels of the requested shape, the frame count
  truncated to an integer, and an error for a request without channels or frames.
\<close>

definition not_supported_error :: js_error where
  "not_supported_error = JsError ''NotSupportedError'' JNull"

definition createBuffer_silent :: "nat \<Rightarrow> jsnum \<Rightarrow> nat \<Rightarrow> js_error + audio_buffer" where
  "createBuffer_silent numChannels frameCount sampleRate =
     (case frameCount of
        Finite q \<Rightarrow>
          if numChannels = 0 \<or> nat \<lfloor>q\<rfloor> = 0 then Inl not_supported_error
          else Inr (replicate numChannels (replicate (nat \<lfloor>q\<rfloor>) (Val 0)))
      | Infinite \<Rightarrow> Inl not_supported_error
      | NotANumber \<Rightarrow> Inl not_supported_error)"

text \<open>
  Two stereo frames: the samples 0, 16384, -16384 and 32767, each as two bytes, low
  byte first.
\<close>

definition stereo_bytes :: "byte list" where
  "stereo_bytes = [0, 0, 0, 64, 0, 192, 255, 127]"

section \<open>Insight fetch and cache (geminiService.ts)\<close>

text \<open>
  The text of a response, by what \<^verbatim>\<open>JSON.parse(response.text.trim())\<close> does with
  it: the text is missing (reading \<^verbatim>\<open>.trim\<close> throws), it is not JSON (the parser
  throws), or it parses to a value.
\<close>

datatype response_text = NoText | Malformed | Parses json

definition syntax_error :: js_error where
  "syntax_error = JsError ''SyntaxError'' JNull"

text \<open>
  The module's cache, \<^verbatim>\<open>insightsCache\<close>, maps a character to the stored value. The
  keys the App passes are single code units.
\<close>

type_synonym insights_cache = "jsstring \<rightharpoonup> json"

text \<open>The credential \<^verbatim>\<open>process.env.API_KEY\<close> may be undefined; it is falsy when undefined or empty.\<close>

definition has_key :: "jsstring option \<Rightarrow> bool" where
  "has_key apiKey = (case apiKey of None \<Rightarrow> False | Some k \<Rightarrow> truthy k)"

text \<open>
  The function runs in two parts, separated by the \<^verbatim>\<open>await\<close>. The first part
  returns at once (\<open>Done\<close>) or issues the request (\<open>Pending\<close>).
\<close>

datatype 'a started = Done 'a | Pending

definition getCharacterInsights_start ::
  "jsstring option \<Rightarrow> insights_cache \<Rightarrow> jsstring \<Rightarrow> json started" where
  "getCharacterInsights_start apiKey insightsCache char =
     (if \<not> has_key apiKey \<or> \<not> truthy char then Done JNull
      else case insightsCache char of
             Some v \<Rightarrow> if json_truthy v then Done v else Pending
           | None \<Rightarrow> Pending)"

text \<open>
  The second part runs when the wrapped request has settled, on the cache as it is
  then. The body of the \<^verbatim>\<open>try\<close> block either throws or returns the parsed value
  with the cache it has written.
\<close>

definition insights_try ::
  "insights_cache \<Rightarrow> jsstring \<Rightarrow> response_text settled \<Rightarrow> js_error + (json \<times> insights_cache)" where
  "insights_try insightsCache char outcome =
     (case outcome of
        Rejected e \<Rightarrow> Inl e
      | Fulfilled NoText \<Rightarrow> Inl type_error
      | Fulfilled Malformed \<Rightarrow> Inl syntax_error
      | Fulfilled (Parses result) \<Rightarrow> Inr (result, insightsCache(char \<mapsto> result)))"

record insight_return =
  returned :: json
  cache_after :: insights_cache
  logged :: "js_error list"

definition getCharacterInsights_settle ::
  "insights_cache \<Rightarrow> jsstring \<Rightarrow> response_text settled \<Rightarrow> insight_return" where
  "getCharacterInsights_settle insightsCache char outcome =
     (case insights_try insightsCache char outcome of
        Inr (result, cache') \<Rightarrow> \<lparr>returned = result, cache_after = cache', logged = []\<rparr>
      | Inl error \<Rightarrow> \<lparr>returned = JNull, cache_after = insightsCache, logged = [error]\<rparr>)"

text \<open>
  A call that no other call overlaps: the request goes through the retry wrapper
  with its default budget 1 and delay 1000, and the second part sees the cache the
  first part saw. The result comes with the network activity of the call.
\<close>

definition getCharacterInsights ::
  "jsstring option \<Rightarrow> (nat \<Rightarrow> response_text settled) \<Rightarrow> insights_cache \<Rightarrow> jsstring
     \<Rightarrow> insight_return \<times> retry_event list" where
  "getCharacterInsights apiKey generateContent insightsCache char =
     (case getCharacterInsights_start apiKey insightsCache char of
        Done v \<Rightarrow> (\<lparr>returned = v, cache_after = insightsCache, logged = []\<rparr>, [])
      | Pending \<Rightarrow>
          (case withRetry generateContent 0 1 1000 of
             (outcome, tr) \<Rightarrow> (getCharacterInsights_settle insightsCache char outcome, tr)))"

text \<open>The fields the request schema lists as required: char, meaning, pinyin, zhuyin.\<close>

definition key_char :: jsstring where "key_char = [99, 104, 97, 114]"
definition key_meaning :: jsstring where "key_meaning = [109, 101, 97, 110, 105, 110, 103]"
definition key_pinyin :: jsstring where "key_pinyin = [112, 105, 110, 121, 105, 110]"
definition key_zhuyin :: jsstring where "key_zhuyin = [122, 104, 117, 121, 105, 110]"

fun has_field :: "jsstring \<Rightarrow> json \<Rightarrow> bool" where
  "has_field k (JObj kvs) = (k \<in> set (map fst kvs))"
| "has_field k v = False"

definition has_required_fields :: "json \<Rightarrow> bool" where
  "has_required_fields v \<longleftrightarrow>
     has_field key_char v \<and> has_field key_meaning v \<and> has_field key_pinyin v
     \<and> has_field key_zhuyin v"

text \<open>
  Sample data: a configured credential, the first two characters of the default
  text, a complete insight for each, a second complete answer for the first
  character, and an answer that has only the character.
\<close>

definition some_key :: "jsstring option" where
  "some_key = Some [107]"

definition yong :: jsstring where "yong = [27704]"
definition he :: jsstring where "he = [21644]"

definition info_yong :: json where
  "info_yong = JObj [(key_char, JStr yong), (key_meaning, JStr [27704, 36960]),
     (key_pinyin, JStr [121, 111, 110, 103]), (key_zhuyin, JStr [12585, 12581])]"

definition info_yong_again :: json where
  "info_yong_again = JObj [(key_char, JStr yong), (key_meaning, JStr [38263, 20037]),
     (key_pinyin, JStr [121, 111, 110, 103]), (key_zhuyin, JStr [12585, 12581])]"

definition info_he :: json where
  "info_he = JObj [(key_char, JStr he), (key_meaning, JStr [21644, 24179]),
     (key_pinyin, JStr [104, 101]), (key_zhuyin, JStr [12559, 12572])]"

definition info_incomplete :: json where
  "info_incomplete = JObj [(key_char, JStr yong)]"

definition answers_incomplete :: "nat \<Rightarrow> response_text settled" where
  "answers_incomplete k = Fulfilled (Parses info_incomplete)"

definition answers_malformed :: "nat \<Rightarrow> response_text settled" where
  "answers_malformed k = Fulfilled Malformed"

section \<open>Insight display (App.tsx)\<close>

text \<open>
  \<^verbatim>\<open>fetchInsights\<close>, run by an effect whenever the current character changes. Up to
  the \<^verbatim>\<open>await\<close> it sets the loading flag; when the service call has returned
  \<open>data\<close>, the rest of the function stores it. The state variable holds a value or
  \<^verbatim>\<open>null\<close>.
\<close>

definition fetchInsights_begin :: "jsstring \<Rightarrow> app_state \<Rightarrow> app_state" where
  "fetchInsights_begin char s = (if \<not> truthy char then s else s\<lparr>isLoadingInsights := True\<rparr>)"

definition fetchInsights_resume :: "json \<Rightarrow> app_state \<Rightarrow> app_state" where
  "fetchInsights_resume data s = s\<lparr>insights := data, isLoadingInsights := False\<rparr>"

text \<open>
  A session of the App: the user navigates, which starts a fetch for the character
  that becomes current, and fetches that are in flight resolve, in any order.
  \<open>in_flight\<close> lists the characters whose fetch has not resolved yet;
  \<open>FetchResolves k data\<close> resolves the fetch at position \<open>k\<close> of that list with \<open>data\<close>.
\<close>

datatype session_event = Mount | Navigate nav_event | FetchResolves nat json

record session =
  view :: ui
  in_flight :: "jsstring list"

definition start_fetch :: "jsstring \<Rightarrow> session \<Rightarrow> session" where
  "start_fetch char x =
     (if \<not> truthy char then x
      else x\<lparr>view := (view x)\<lparr>app := fetchInsights_begin char (app (view x))\<rparr>,
             in_flight := in_flight x @ [char]\<rparr>)"

fun session_step :: "session \<Rightarrow> session_event \<Rightarrow> session" where
  "session_step x Mount = start_fetch (currentChar (app (view x))) x"
| "session_step x (Navigate ev) =
     (let x' = x\<lparr>view := nav_step (view x) ev\<rparr>
      in if currentChar (app (view x')) = currentChar (app (view x)) then x'
         else start_fetch (currentChar (app (view x'))) x')"
| "session_step x (FetchResolves k data) =
     (if k < length (in_flight x)
      then x\<lparr>view := (view x)\<lparr>app := fetchInsights_resume data (app (view x))\<rparr>,
             in_flight := take k (in_flight x) @ drop (Suc k) (in_flight x)\<rparr>
      else x)"

definition session_run :: "session \<Rightarrow> session_event list \<Rightarrow> session" where
  "session_run x evs = foldl session_step x evs"

definition initial_session :: session where
  "initial_session = \<lparr>view = \<lparr>app = initial_state, timers = []\<rparr>, in_flight = []\<rparr>"

section \<open>Cloud speech (ttsService.ts)\<close>

text \<open>
  What the function observes of the remote service. A response that is not ok has a
  body that fails to parse, is \<^verbatim>\<open>null\<close> (reading \<^verbatim>\<open>.error\<close> throws), carries a
  truthy \<^verbatim>\<open>error.message\<close>, or carries none. The body of an ok response fails to
  parse, is \<^verbatim>\<open>null\<close>, or gives the audio content.
\<close>

datatype error_body = ErrorBodyRejects js_error | ErrorBodyNull | ErrorMessage jsstring | NoErrorMessage

datatype ok_body = OkBodyRejects js_error | OkBodyNull | AudioContent

datatype http_response = HttpNotOk error_body | HttpOk ok_body

text \<open>
  What happens to the audio element, in order: the promise of \<^verbatim>\<open>play()\<close> is
  fulfilled or rejected, the element fires \<^verbatim>\<open>error\<close>, the element fires \<^verbatim>\<open>ended\<close>.
\<close>

datatype audio_event = PlayFulfilled | PlayRejected js_error | AudioError js_error | AudioEnded

record cloud_env =
  fetch :: "http_response settled"
  audio_events :: "audio_event list"

text \<open>
  The promise the function returns: \<^verbatim>\<open>resolve\<close> and \<^verbatim>\<open>reject\<close> act once, so the
  first of the play promise's outcome and the error event settles it, and later ones
  do nothing; \<^verbatim>\<open>onended\<close> only clears the source. \<open>None\<close>: no event settles it.
\<close>

fun play_promise :: "audio_event list \<Rightarrow> unit settled option" where
  "play_promise [] = None"
| "play_promise (PlayFulfilled # evs) = Some (Fulfilled ())"
| "play_promise (PlayRejected e # evs) = Some (Rejected e)"
| "play_promise (AudioError e # evs) = Some (Rejected e)"
| "play_promise (AudioEnded # evs) = play_promise evs"

definition missing_key_error :: js_error where
  "missing_key_error = JsError ''Error''
     (JStr [35531, 35373, 23450, 32, 65, 80, 73, 32, 75, 101, 121, 32,
            20197, 20351, 29992, 38642, 31471, 35486, 38899])"

definition tts_failed_message :: jsstring where
  "tts_failed_message =
     [71, 111, 111, 103, 108, 101, 32, 84, 84, 83, 32, 35531, 27714, 22833, 25943]"

text \<open>
  What a pronunciation request does, in order: state updates of the speaking flag,
  dialogs and log lines, and the requests handed to the platform.
\<close>

datatype effect =
    SetIsSpeaking bool
  | Alert
  | ConsoleError js_error
  | ConsoleWarn
  | CloudRequest jsstring bool
  | AudioPlay
  | SpeechCancel
  | SpeechSpeak jsstring
  | SpeechRequest retry_event
  | SourceStart

text \<open>
  The body of the \<^verbatim>\<open>try\<close> block: it throws, or it returns the playback promise
  (whose rejection the \<^verbatim>\<open>catch\<close> of this function does not see).
\<close>

definition cloud_try :: "cloud_env \<Rightarrow> js_error + unit settled option" where
  "cloud_try env =
     (case fetch env of
        Rejected e \<Rightarrow> Inl e
      | Fulfilled (HttpNotOk body) \<Rightarrow>
          (case body of
             ErrorBodyRejects e \<Rightarrow> Inl e
           | ErrorBodyNull \<Rightarrow> Inl type_error
           | ErrorMessage m \<Rightarrow> Inl (JsError ''Error'' (JStr m))
           | NoErrorMessage \<Rightarrow> Inl (JsError ''Error'' (JStr tts_failed_message)))
      | Fulfilled (HttpOk body) \<Rightarrow>
          (case body of
             OkBodyRejects e \<Rightarrow> Inl e
           | OkBodyNull \<Rightarrow> Inl type_error
           | AudioContent \<Rightarrow> Inr (play_promise (audio_events env))))"

definition playCloudTTS ::
  "jsstring \<Rightarrow> jsstring \<Rightarrow> bool \<Rightarrow> cloud_env \<Rightarrow> unit settled option \<times> effect list" where
  "playCloudTTS text apiKey simplified env =
     (if \<not> truthy apiKey then (Some (Rejected missing_key_error), [])
      else case cloud_try env of
             Inl error \<Rightarrow>
               (Some (Rejected error), [CloudRequest text simplified, ConsoleError error])
           | Inr promise \<Rightarrow> (promise, [CloudRequest text simplified, AudioPlay]))"

section \<open>Pronunciation (App.tsx)\<close>

text \<open>
  The local speech engine: constructing the utterance or reaching the engine throws,
  before anything is handed over; or \<^verbatim>\<open>cancel()\<close> has run and \<^verbatim>\<open>speak()\<close> throws; or
  the utterance is spoken and the engine later fires \<^verbatim>\<open>end\<close> and \<^verbatim>\<open>error\<close> events
  on it.
\<close>

datatype speech_event = SpeechEnd | SpeechError js_error

datatype speech_outcome =
    UtteranceThrows js_error
  | SpeakThrows js_error
  | Spoken "speech_event list"

record speak_env =
  api_key :: "jsstring option"
  cloud :: cloud_env
  speech :: speech_outcome

fun utterance_handler :: "speech_event \<Rightarrow> effect list" where
  "utterance_handler SpeechEnd = [SetIsSpeaking False]"
| "utterance_handler (SpeechError e) = [ConsoleError e, SetIsSpeaking False]"

text \<open>
  \<^verbatim>\<open>playPronunciation\<close>, as the effects of one call in the order they happen, the
  ones after an \<^verbatim>\<open>await\<close> and the ones of the event handlers included. It reads the
  state of the render whose button was clicked.
\<close>

definition playPronunciation :: "speak_env \<Rightarrow> app_state \<Rightarrow> effect list" where
  "playPronunciation env r =
     (if isSpeaking r \<or> \<not> truthy (currentChar r) then []
      else SetIsSpeaking True #
        (if useCloudVoice r then
           (let apiKey = (case api_key env of None \<Rightarrow> [] | Some k \<Rightarrow> k)
            in if \<not> truthy apiKey then [Alert, SetIsSpeaking False]
               else case playCloudTTS (currentChar r) apiKey (isSimplified r) (cloud env) of
                      (outcome, effs) \<Rightarrow>
                        effs @
                        (case outcome of
                           None \<Rightarrow> []
                         | Some (Fulfilled audio) \<Rightarrow> [SetIsSpeaking False]
                         | Some (Rejected error) \<Rightarrow> [ConsoleError error, SetIsSpeaking False]))
         else
           (case speech env of
              UtteranceThrows error \<Rightarrow> [ConsoleError error, SetIsSpeaking False]
            | SpeakThrows error \<Rightarrow> [SpeechCancel, ConsoleError error, SetIsSpeaking False]
            | Spoken evs \<Rightarrow>
                SpeechCancel # SpeechSpeak (currentChar r) # concat (map utterance_handler evs))))"

fun apply_effect :: "app_state \<Rightarrow> effect \<Rightarrow> app_state" where
  "apply_effect s (SetIsSpeaking b) = s\<lparr>isSpeaking := b\<rparr>"
| "apply_effect s other = s"

definition apply_effects :: "effect list \<Rightarrow> app_state \<Rightarrow> app_state" where
  "apply_effects effs s = foldl apply_effect s effs"

section \<open>Speech synthesis request (geminiService.ts) and its playback (second App component)\<close>

type_synonym speech_cache = "jsstring \<rightharpoonup> jsstring"

text \<open>
  Of a response, \<^verbatim>\<open>response.candidates?.[0]?.content?.parts\<close> if there is one, and of
  each part its \<^verbatim>\<open>inlineData?.data\<close> if there is one.
\<close>

type_synonym speech_response = "jsstring option list option"

text \<open>
  The function returns the audio text or \<^verbatim>\<open>null\<close> (\<open>Inr\<close>); its \<^verbatim>\<open>catch\<close> block
  tests the message of the failure as the retry wrapper does, and a type error thrown
  there leaves the function (\<open>Inl\<close>).
\<close>

fun first_inline_data :: "jsstring option list \<Rightarrow> jsstring option" where
  "first_inline_data [] = None"
| "first_inline_data (None # parts) = first_inline_data parts"
| "first_inline_data (Some d # parts) = (if truthy d then Some d else first_inline_data parts)"

definition generateSpeech ::
  "jsstring option \<Rightarrow> (nat \<Rightarrow> speech_response settled) \<Rightarrow> speech_cache \<Rightarrow> jsstring
     \<Rightarrow> (js_error + jsstring option) \<times> speech_cache \<times> effect list" where
  "generateSpeech apiKey generateContent speechCache text =
     (if \<not> has_key apiKey \<or> \<not> truthy text then (Inr None, speechCache, [])
      else if (case speechCache text of None \<Rightarrow> False | Some d \<Rightarrow> truthy d)
      then (Inr (speechCache text), speechCache, [])
      else
        (case withRetry generateContent 0 1 1000 of
           (Rejected error, tr) \<Rightarrow>
             (case rate_limit_test error of
                None \<Rightarrow>
                  (Inl type_error, speechCache, map SpeechRequest tr @ [ConsoleError error])
              | Some signal \<Rightarrow>
                  (Inr None, speechCache,
                   map SpeechRequest tr @ ConsoleError error #
                     (if signal then [ConsoleWarn] else [])))
         | (Fulfilled None, tr) \<Rightarrow> (Inr None, speechCache, map SpeechRequest tr)
         | (Fulfilled (Some parts), tr) \<Rightarrow>
             (case first_inline_data parts of
                Some d \<Rightarrow> (Inr (Some d), speechCache(text \<mapsto> d), map SpeechRequest tr)
              | None \<Rightarrow> (Inr None, speechCache, map SpeechRequest tr))))"

text \<open>
  The platform under the playback: creating or resuming the audio context fails,
  \<^verbatim>\<open>atob\<close> rejects the text, the context refuses the buffer, or creating, connecting
  and starting the source fails; a source that has started fires \<^verbatim>\<open>ended\<close> events.
\<close>

record playback_env =
  context_fails :: "js_error option"
  window_atob :: "jsstring \<Rightarrow> js_error + byte list"
  ctx_createBuffer :: "nat \<Rightarrow> jsnum \<Rightarrow> nat \<Rightarrow> js_error + audio_buffer"
  start_fails :: "js_error option"
  ended_events :: nat

definition playback_try :: "playback_env \<Rightarrow> jsstring \<Rightarrow> js_error + nat" where
  "playback_try env base64Audio =
     (case context_fails env of
        Some e \<Rightarrow> Inl e
      | None \<Rightarrow>
          (case window_atob env base64Audio of
             Inl e \<Rightarrow> Inl e
           | Inr audioData \<Rightarrow>
               (case decodeAudioData audioData (ctx_createBuffer env) 24000 1 of
                  Inl e \<Rightarrow> Inl e
                | Inr buffer \<Rightarrow>
                    (case start_fails env of
                       Some e \<Rightarrow> Inl e
                     | None \<Rightarrow> Inr (ended_events env)))))"

definition playPronunciation_alt ::
  "jsstring option \<Rightarrow> (nat \<Rightarrow> speech_response settled) \<Rightarrow> speech_cache \<Rightarrow> playback_env
     \<Rightarrow> app_state \<Rightarrow> effect list" where
  "playPronunciation_alt apiKey generateContent speechCache env r =
     (if isSpeaking r \<or> \<not> truthy (currentChar r) then []
      else SetIsSpeaking True #
        (case generateSpeech apiKey generateContent speechCache (currentChar r) of
           (outcome, cache', effs) \<Rightarrow>
             effs @
             (case outcome of
                Inl error \<Rightarrow> [ConsoleError error, SetIsSpeaking False]
              | Inr None \<Rightarrow> [ConsoleWarn, SetIsSpeaking False]
              | Inr (Some b) \<Rightarrow>
                  if \<not> truthy b then [ConsoleWarn, SetIsSpeaking False]
                  else
                    (case playback_try env b of
                       Inl error \<Rightarrow> [ConsoleError error, SetIsSpeaking False]
                     | Inr n \<Rightarrow> SourceStart # replicate n (SetIsSpeaking False)))))"

text \<open>The values written to the speaking flag, in order.\<close>

fun flag_writes :: "effect list \<Rightarrow> bool list" where
  "flag_writes [] = []"
| "flag_writes (SetIsSpeaking b # effs) = b # flag_writes effs"
| "flag_writes (other # effs) = flag_writes effs"

text \<open>
  A session around the speak button. A click runs \<^verbatim>\<open>playPronunciation\<close> on the
  current state: its first effect happens at once and the rest of its effects, which
  wait for the platform, are kept in \<open>running\<close>, one entry per request that has been
  dispatched and has not finished. \<open>Progress k\<close> lets request \<open>k\<close> perform its next
  effect. \<open>Other f\<close> is any other update of the state, which leaves the speaking flag
  alone (only \<^verbatim>\<open>playPronunciation\<close> calls \<^verbatim>\<open>setIsSpeaking\<close>).
\<close>

datatype speak_event = ClickSpeak speak_env | Progress nat | Other "app_state \<Rightarrow> app_state"

record speak_session =
  state :: app_state
  running :: "effect list list"

fun speak_step :: "speak_session \<Rightarrow> speak_event \<Rightarrow> speak_session" where
  "speak_step x (ClickSpeak env) =
     (case playPronunciation env (state x) of
        [] \<Rightarrow> x
      | e # rest \<Rightarrow> x\<lparr>state := apply_effect (state x) e, running := running x @ [rest]\<rparr>)"
| "speak_step x (Progress k) =
     (if k < length (running x) then
        (case running x ! k of
           [] \<Rightarrow> x
         | e # rest \<Rightarrow>
             x\<lparr>state := apply_effect (state x) e,
               running := (if rest = [] then take k (running x) @ drop (Suc k) (running x)
                           else (running x)[k := rest])\<rparr>)
      else x)"
| "speak_step x (Other f) = x\<lparr>state := (f (state x))\<lparr>isSpeaking := isSpeaking (state x)\<rparr>\<rparr>"

definition speak_run :: "speak_session \<Rightarrow> speak_event list \<Rightarrow> speak_session" where
  "speak_run x evs = foldl speak_step x evs"

text \<open>
  The platform's side of the contract: the speech engine fires at most one of
  \<^verbatim>\<open>end\<close> and \<^verbatim>\<open>error\<close> for an utterance it has accepted.
\<close>

fun platform_ok :: "speak_event \<Rightarrow> bool" where
  "platform_ok (ClickSpeak env) =
     (case speech env of
        UtteranceThrows e \<Rightarrow> True
      | SpeakThrows e \<Rightarrow> True
      | Spoken evs \<Rightarrow> length evs \<le> 1)"
| "platform_ok (Progress k) = True"
| "platform_ok (Other f) = True"

text \<open>
  What is still to come of a dispatched request: no write to the flag, or exactly
  one, which clears it and comes last.
\<close>

definition pending_ok :: "effect list \<Rightarrow> bool" where
  "pending_ok tr \<longleftrightarrow>
     flag_writes tr = [] \<or> (tr \<noteq> [] \<and> last tr = SetIsSpeaking False \<and> flag_writes tr = [False])"

text \<open>
  Sample platforms: local speech that ends normally; cloud speech whose request is
  answered and whose playback starts; a playback platform that decodes one sample
  and plays it; a synthesis service that answers with one inline audio part.
\<close>

definition local_env :: speak_env where
  "local_env = \<lparr>api_key = None,
     cloud = \<lparr>fetch = Rejected type_error, audio_events = [PlayFulfilled]\<rparr>,
     speech = Spoken [SpeechEnd]\<rparr>"

definition cloud_ok_env :: speak_env where
  "cloud_ok_env = \<lparr>api_key = some_key,
     cloud = \<lparr>fetch = Fulfilled (HttpOk AudioContent), audio_events = [PlayFulfilled, AudioEnded]\<rparr>,
     speech = Spoken [SpeechEnd]\<rparr>"

definition atob_one_sample :: "jsstring \<Rightarrow> js_error + byte list" where
  "atob_one_sample b = Inr [0, 64]"

definition playing_env :: playback_env where
  "playing_env = \<lparr>context_fails = None, window_atob = atob_one_sample,
     ctx_createBuffer = createBuffer_silent, start_fails = None, ended_events = 1\<rparr>"

definition speech_answers :: "nat \<Rightarrow> speech_response settled" where
  "speech_answers k = Fulfilled (Some [None, Some [65, 65]])"

definition cloud_state :: app_state where
  "cloud_state = initial_state\<lparr>useCloudVoice := True\<rparr>"

definition speaking_state :: app_state where
  "speaking_state = initial_state\<lparr>isSpeaking := True\<rparr>"

definition idle_session :: speak_session where
  "idle_session = \<lparr>state = initial_state, running = []\<rparr>"

text \<open>
  The state of a session in which at most one request is in flight: the flag is set
  while a request is running.
\<close>

definition one_in_flight :: "speak_session \<Rightarrow> bool" where
  "one_in_flight x \<longleftrightarrow>
     length (running x) \<le> 1 \<and> (\<forall>tr \<in> set (running x). isSpeaking (state x) \<and> pending_ok tr)"


section \<open>Navigation: properties\<close>

lemma characters_currentIndex_update [simp]:
  "characters (s\<lparr>currentIndex := i\<rparr>) = characters s"
  by (simp add: characters_def)

lemma dropWhile_all_iff: "(\<forall>x \<in> set (dropWhile P xs). P x) \<longleftrightarrow> dropWhile P xs = []"
proof
  assume all: "\<forall>x \<in> set (dropWhile P xs). P x"
  show "dropWhile P xs = []"
  proof (rule ccontr)
    assume ne: "dropWhile P xs \<noteq> []"
    then have "\<not> P (hd (dropWhile P xs))" by (rule hd_dropWhile)
    moreover from ne have "hd (dropWhile P xs) \<in> set (dropWhile P xs)" by simp
    ultimately show False using all by blast
  qed
next
  assume e: "dropWhile P xs = []"
  show "\<forall>x \<in> set (dropWhile P xs). P x" unfolding e by simp
qed

lemma trim_empty_iff: "trim s = [] \<longleftrightarrow> (\<forall>c \<in> set s. isWhiteSpace c)"
proof -
  have "trim s = [] \<longleftrightarrow> (\<forall>x \<in> set (dropWhile isWhiteSpace s). isWhiteSpace x)"
    by (simp add: trim_def)
  also have "\<dots> \<longleftrightarrow> dropWhile isWhiteSpace s = []"
    by (rule dropWhile_all_iff)
  also have "\<dots> \<longleftrightarrow> (\<forall>c \<in> set s. isWhiteSpace c)"
    by simp
  finally show ?thesis .
qed

lemma handleNext_in_range:
  "index_in_range s \<Longrightarrow> index_in_range (handleNext s s)"
  by (simp add: handleNext_def index_in_range_def)

lemma handlePrev_in_range:
  "index_in_range s \<Longrightarrow> index_in_range (handlePrev s s)"
  by (simp add: handlePrev_def index_in_range_def)

lemma handleNext_at_last:
  "currentIndex s = int (length (characters s)) - 1 \<Longrightarrow> handleNext s s = s"
  by (simp add: handleNext_def)

lemma handlePrev_at_first:
  "currentIndex s = 0 \<Longrightarrow> handlePrev s s = s"
  by (simp add: handlePrev_def)

lemma nav_click_in_range:
  "index_in_range (app u) \<Longrightarrow> ev \<in> {ClickNext, ClickPrev, ClickThumb i} \<Longrightarrow>
   index_in_range (app (nav_step u ev))"
  by (auto simp: handleNext_in_range handlePrev_in_range) (simp add: index_in_range_def)

text \<open>
  C4 (next and prev keep the position in range). The position handlers guard on
  the state of the render they belong to and update the latest state. The quiz
  board schedules \<^verbatim>\<open>handleNext\<close> 1200 ms after completion; when the user clicks
  Next in between, the timer's handler still sees position 2 of 4, passes its guard
  and moves the position from the last index 3 to 4, outside the sequence: no
  character is active any more.
\<close>

theorem handleNext_stale_timer_out_of_range:
  "currentIndex (app (nav_run \<lparr>app = third_char_state, timers = []\<rparr>
      [QuizComplete, ClickNext, TimerFires])) = 4
   \<and> length (characters (app (nav_run \<lparr>app = third_char_state, timers = []\<rparr>
      [QuizComplete, ClickNext, TimerFires]))) = 4
   \<and> currentChar (app (nav_run \<lparr>app = third_char_state, timers = []\<rparr>
      [QuizComplete, ClickNext, TimerFires])) = []
   \<and> index_in_range third_char_state"
  by (simp add: nav_run_def third_char_state_def initial_state_def DEFAULT_TEXT_def
      handleNext_def characters_def nonWhitespace_def isWhiteSpace_def currentChar_def
      index_in_range_def)








text \<open>
  C10 (a blank input makes the text update a no-op). When every code unit of the
  input is white space (in particular when the input is empty), the text update
  returns the state unchanged: active text, active sequence and position stay as
  they were, in both App components.
\<close>

theorem handleUpdateText_blank_noop:
  assumes "\<forall>c \<in> set (inputText r). isWhiteSpace c"
  shows "handleUpdateText cn2tw tw2cn r s = s \<and> handleUpdateText_alt r s = s
         \<and> activeText (handleUpdateText cn2tw tw2cn r s) = activeText s
         \<and> characters (handleUpdateText cn2tw tw2cn r s) = characters s
         \<and> currentIndex (handleUpdateText cn2tw tw2cn r s) = currentIndex s"
proof -
  from assms have "trim (inputText r) = []"
    by (simp add: trim_empty_iff)
  then show ?thesis
    by (simp add: handleUpdateText_def handleUpdateText_alt_def truthy_def)
qed

theorem handleUpdateText_blank_noop_witness:
  "inputText blank_input_state = [32, 9] \<and> isWhiteSpace 32 \<and> isWhiteSpace 9
   \<and> handleUpdateText id id blank_input_state blank_input_state = blank_input_state
   \<and> handleUpdateText_alt blank_input_state blank_input_state = blank_input_state
   \<and> characters (handleUpdateText id id blank_input_state blank_input_state)
       = [ [27704], [21644], [20061], [24180]]
   \<and> currentIndex (handleUpdateText id id blank_input_state blank_input_state) = 2"
  using handleUpdateText_blank_noop [of blank_input_state id id blank_input_state]
  by (simp add: blank_input_state_def initial_state_def DEFAULT_TEXT_def isWhiteSpace_def
      characters_def nonWhitespace_def)

section \<open>Retry wrapper: properties\<close>

lemma retry_trace_0: "retry_trace n d 0 = [Attempt n]"
  by (simp add: retry_trace_def)

lemma retry_trace_Suc:
  "retry_trace n d (Suc m) = Attempt n # Delay d # retry_trace (Suc n) (d * 2) m"
proof -
  have "[0..<Suc m] = 0 # map Suc [0..<m]"
    by (simp add: upt_conv_Cons map_Suc_upt del: upt_Suc)
  then show ?thesis
    by (simp add: retry_trace_def comp_def mult.assoc del: upt_Suc)
qed

lemma attempts_retry_trace: "attempts (retry_trace n d m) = [n..<n + m + 1]"
proof (induction m arbitrary: n d)
  case 0
  show ?case by (simp add: retry_trace_0)
next
  case (Suc m)
  show ?case by (simp add: retry_trace_Suc Suc upt_conv_Cons del: upt_Suc)
qed

lemma delays_retry_trace: "delays (retry_trace n d m) = map (\<lambda>i. d * 2 ^ i) [0..<m]"
proof (induction m arbitrary: n d)
  case 0
  show ?case by (simp add: retry_trace_0)
next
  case (Suc m)
  have "[0..<Suc m] = 0 # map Suc [0..<m]"
    by (simp add: upt_conv_Cons map_Suc_upt del: upt_Suc)
  then show ?case by (simp add: retry_trace_Suc Suc comp_def mult.assoc del: upt_Suc)
qed

text \<open>
  The shape of every run: \<open>m\<close> retries, each after a failure on which the test gave
  true; the last invocation's outcome is returned, except that a failure on which
  the test throws while budget remains is replaced by the type error.
\<close>

lemma withRetry_shape:
  "\<exists>m. int m \<le> max 0 r
       \<and> snd (withRetry fn n r d) = retry_trace n d m
       \<and> (\<forall>i<m. \<exists>e. fn (n + i) = Rejected e \<and> rate_limit_test e = Some True)
       \<and> fst (withRetry fn n r d) =
           (case fn (n + m) of
              Fulfilled v \<Rightarrow> Fulfilled v
            | Rejected e \<Rightarrow>
                if int m < r \<and> rate_limit_test e = None then Rejected type_error
                else Rejected e)
       \<and> (\<forall>e. fn (n + m) = Rejected e \<and> rate_limit_test e = Some True \<longrightarrow> int m = max 0 r)"
proof (induction fn n r d rule: withRetry.induct)
  case (1 fn n retries delay)
  show ?case
  proof (cases "fn n")
    case (Fulfilled v)
    then have "withRetry fn n retries delay = (Fulfilled v, retry_trace n delay 0)"
      by (subst withRetry.simps) (simp add: retry_trace_0)
    with Fulfilled show ?thesis
      by (intro exI[of _ 0]) simp
  next
    case (Rejected e)
    show ?thesis
    proof (cases "retries > 0 \<and> rate_limit_test e = Some True")
      case False
      with Rejected have "withRetry fn n retries delay =
          (if 0 < retries \<and> rate_limit_test e = None then Rejected type_error else Rejected e,
           retry_trace n delay 0)"
        by (subst withRetry.simps) (auto simp: retry_trace_0 split: option.splits)
      with Rejected False show ?thesis
        by (intro exI[of _ 0]) auto
    next
      case True
      with Rejected "1.IH" [of e True] obtain m where
        m: "int m \<le> max 0 (retries - 1)"
        and tr: "snd (withRetry fn (Suc n) (retries - 1) (delay * 2))
                 = retry_trace (Suc n) (delay * 2) m"
        and before: "\<forall>i<m. \<exists>e. fn (Suc n + i) = Rejected e \<and> rate_limit_test e = Some True"
        and res: "fst (withRetry fn (Suc n) (retries - 1) (delay * 2)) =
           (case fn (Suc n + m) of
              Fulfilled v \<Rightarrow> Fulfilled v
            | Rejected e \<Rightarrow>
                if int m < retries - 1 \<and> rate_limit_test e = None then Rejected type_error
                else Rejected e)"
        and stop: "\<forall>e. fn (Suc n + m) = Rejected e \<and> rate_limit_test e = Some True
                     \<longrightarrow> int m = max 0 (retries - 1)"
        by blast
      from Rejected True
      have step: "withRetry fn n retries delay =
          (fst (withRetry fn (Suc n) (retries - 1) (delay * 2)),
           Attempt n # Delay delay # snd (withRetry fn (Suc n) (retries - 1) (delay * 2)))"
        by (subst withRetry.simps) (simp split: prod.splits)
      have "int (Suc m) \<le> max 0 retries"
        using m True by simp
      moreover have "snd (withRetry fn n retries delay) = retry_trace n delay (Suc m)"
        by (simp add: step tr retry_trace_Suc)
      moreover have "\<forall>i<Suc m. \<exists>e. fn (n + i) = Rejected e \<and> rate_limit_test e = Some True"
      proof (intro allI impI)
        fix i assume "i < Suc m"
        show "\<exists>e. fn (n + i) = Rejected e \<and> rate_limit_test e = Some True"
        proof (cases i)
          case 0
          with Rejected True show ?thesis by simp
        next
          case (Suc j)
          with \<open>i < Suc m\<close> before show ?thesis by simp
        qed
      qed
      moreover have "fst (withRetry fn n retries delay) =
           (case fn (n + Suc m) of
              Fulfilled v \<Rightarrow> Fulfilled v
            | Rejected e \<Rightarrow>
                if int (Suc m) < retries \<and> rate_limit_test e = None then Rejected type_error
                else Rejected e)"
      proof (cases "fn (Suc n + m)")
        case (Fulfilled v)
        with res show ?thesis by (simp add: step)
      next
        case (Rejected e')
        have "int m < retries - 1 \<longleftrightarrow> int (Suc m) < retries" by auto
        with res Rejected show ?thesis by (auto simp: step)
      qed
      moreover have "\<forall>e. fn (n + Suc m) = Rejected e \<and> rate_limit_test e = Some True
          \<longrightarrow> int (Suc m) = max 0 retries"
        using stop True by auto
      ultimately show ?thesis by blast
    qed
  qed
qed

lemma withRetry_attempts_bound:
  assumes "0 \<le> r"
  shows "length (attempts (snd (withRetry fn n r d))) \<le> nat r + 1"
proof -
  from withRetry_shape [of r fn n d] obtain m where
    "int m \<le> max 0 r" and "snd (withRetry fn n r d) = retry_trace n d m"
    by blast
  with assms show ?thesis
    by (simp add: attempts_retry_trace)
qed

text \<open>The source's text search finds the needle exactly where it occurs.\<close>

lemma startsWith_take: "startsWith s needle \<longleftrightarrow> take (length needle) s = needle"
  by (induction s needle rule: startsWith.induct) auto

lemma occurs_in_le:
  "occurs_in needle m \<longleftrightarrow> (\<exists>i\<le>length m. take (length needle) (drop i m) = needle)"
  by (auto simp: occurs_in_def less_Suc_eq_le simp del: upt_Suc)

lemma includes_str_occurs: "includes_str m needle \<longleftrightarrow> occurs_in needle m"
proof (induction m)
  case Nil
  show ?case by (auto simp: occurs_in_le)
next
  case (Cons c cs)
  have "(\<exists>i\<le>length (c # cs). take (length needle) (drop i (c # cs)) = needle)
      \<longleftrightarrow> take (length needle) (c # cs) = needle
          \<or> (\<exists>j\<le>length cs. take (length needle) (drop j cs) = needle)"
  proof
    assume "\<exists>i\<le>length (c # cs). take (length needle) (drop i (c # cs)) = needle"
    then obtain i where i: "i \<le> length (c # cs)"
      and t: "take (length needle) (drop i (c # cs)) = needle" by blast
    show "take (length needle) (c # cs) = needle
          \<or> (\<exists>j\<le>length cs. take (length needle) (drop j cs) = needle)"
    proof (cases i)
      case 0
      with t show ?thesis by simp
    next
      case (Suc j)
      with i t show ?thesis by auto
    qed
  next
    assume "take (length needle) (c # cs) = needle
          \<or> (\<exists>j\<le>length cs. take (length needle) (drop j cs) = needle)"
    then show "\<exists>i\<le>length (c # cs). take (length needle) (drop i (c # cs)) = needle"
    proof
      assume "take (length needle) (c # cs) = needle"
      then have "take (length needle) (drop 0 (c # cs)) = needle" by simp
      then show ?thesis by blast
    next
      assume "\<exists>j\<le>length cs. take (length needle) (drop j cs) = needle"
      then obtain j where "j \<le> length cs" "take (length needle) (drop j cs) = needle"
        by blast
      then have "Suc j \<le> length (c # cs)"
        and "take (length needle) (drop (Suc j) (c # cs)) = needle" by simp_all
      then show ?thesis by blast
    qed
  qed
  with Cons show ?case
    by (simp add: occurs_in_le startsWith_take del: startsWith.simps)
qed

lemma plain_failure_test:
  assumes "plain_failure e"
  shows "rate_limit_test e = Some (carries_429 e)"
proof (cases "read_message e")
  case None
  with assms show ?thesis by (simp add: plain_failure_def)
next
  case (Some m)
  with assms show ?thesis
    by (cases m)
       (simp_all add: plain_failure_def rate_limit_test_def carries_429_def includes_str_occurs)
qed

text \<open>
  The contract of the wrapper for operations whose failures are plain. For a budget
  \<open>retries \<ge> 0\<close> and an initial delay \<open>d\<close>, a run invokes the operation at most
  \<open>retries + 1\<close> times, waits once between two invocations, the waits being \<open>d\<close>,
  \<open>2d\<close>, \<open>4d\<close>, ...; every invocation that was followed by a retry failed with the
  rate-limit signal; the result is the outcome of the last invocation, unchanged,
  and when that is a failure it either has no rate-limit signal or the budget is
  used up. An operation that is rate-limited exactly \<open>k \<le> retries\<close> times and then
  succeeds with \<open>v\<close> gives \<open>v\<close> after exactly \<open>k\<close> waits; one that is rate-limited more
  often than the budget allows gives the failure of invocation number \<open>retries\<close>.
\<close>

lemma withRetry_plain_contract:
  assumes budget: "0 \<le> retries"
    and run: "withRetry fn 0 retries d = (res, tr)"
    and plain: "\<forall>i e. fn i = Rejected e \<longrightarrow> plain_failure e"
  shows "length (attempts tr) \<le> nat retries + 1
     \<and> attempts tr = [0..<length (delays tr) + 1]
     \<and> delays tr = map (\<lambda>i. d * 2 ^ i) [0..<length (delays tr)]
     \<and> tr = retry_trace 0 d (length (delays tr))
     \<and> (\<forall>i<length (delays tr). \<exists>e. fn i = Rejected e \<and> carries_429 e)
     \<and> res = fn (length (delays tr))
     \<and> (\<forall>e. res = Rejected e \<longrightarrow> \<not> carries_429 e \<or> length (delays tr) = nat retries)
     \<and> (\<forall>k v. (\<forall>i<k. \<exists>e. fn i = Rejected e \<and> carries_429 e) \<and> fn k = Fulfilled v
            \<and> int k \<le> retries
          \<longrightarrow> res = Fulfilled v \<and> delays tr = map (\<lambda>i. d * 2 ^ i) [0..<k])
     \<and> (\<forall>k. (\<forall>i<k. \<exists>e. fn i = Rejected e \<and> carries_429 e) \<and> retries < int k
          \<longrightarrow> res = fn (nat retries) \<and> attempts tr = [0..<nat retries + 1])"
proof -
  have test: "rate_limit_test e = Some (carries_429 e)" if "fn i = Rejected e" for i e
    using that plain plain_failure_test by blast
  from withRetry_shape [of retries fn 0 d] obtain m where
    m0: "int m \<le> max 0 retries"
    and tr0: "snd (withRetry fn 0 retries d) = retry_trace 0 d m"
    and before0: "\<forall>i<m. \<exists>e. fn (0 + i) = Rejected e \<and> rate_limit_test e = Some True"
    and res0: "fst (withRetry fn 0 retries d) =
           (case fn (0 + m) of
              Fulfilled v \<Rightarrow> Fulfilled v
            | Rejected e \<Rightarrow>
                if int m < retries \<and> rate_limit_test e = None then Rejected type_error
                else Rejected e)"
    and stop0: "\<forall>e. fn (0 + m) = Rejected e \<and> rate_limit_test e = Some True
                  \<longrightarrow> int m = max 0 retries"
    by blast
  from m0 budget have m: "m \<le> nat retries" by simp
  from tr0 run have tr: "tr = retry_trace 0 d m" by simp
  have res: "res = fn m"
  proof (cases "fn m")
    case (Fulfilled v)
    with res0 run show ?thesis by simp
  next
    case (Rejected e)
    with test have "rate_limit_test e \<noteq> None" by simp
    with res0 run Rejected show ?thesis by simp
  qed
  have before: "\<forall>i<m. \<exists>e. fn i = Rejected e \<and> carries_429 e"
  proof (intro allI impI)
    fix i assume "i < m"
    with before0 obtain e where e: "fn i = Rejected e" "rate_limit_test e = Some True"
      by auto
    with test [of i e] have "carries_429 e" by simp
    with e show "\<exists>e. fn i = Rejected e \<and> carries_429 e" by blast
  qed
  have stop: "\<forall>e. fn m = Rejected e \<longrightarrow> \<not> carries_429 e \<or> m = nat retries"
  proof (intro allI impI)
    fix e assume e: "fn m = Rejected e"
    show "\<not> carries_429 e \<or> m = nat retries"
    proof (cases "carries_429 e")
      case True
      with test [OF e] have "rate_limit_test e = Some True" by simp
      with stop0 e budget have "m = nat retries" by auto
      then show ?thesis ..
    next
      case False
      then show ?thesis ..
    qed
  qed
  have len: "length (delays tr) = m"
    by (simp add: tr delays_retry_trace)
  have att: "attempts tr = [0..<m + 1]"
    using attempts_retry_trace [of 0 d m] by (simp add: tr)
  have dl: "delays tr = map (\<lambda>i. d * 2 ^ i) [0..<m]"
    by (simp add: tr delays_retry_trace)
  have succ: "res = Fulfilled v \<and> delays tr = map (\<lambda>i. d * 2 ^ i) [0..<k]"
    if fails: "\<forall>i<k. \<exists>e. fn i = Rejected e \<and> carries_429 e"
      and ok: "fn k = Fulfilled v" and k: "int k \<le> retries" for k v
  proof -
    have "\<not> k < m" using before ok by auto
    moreover have "\<not> m < k"
    proof
      assume "m < k"
      with fails obtain e where "fn m = Rejected e" "carries_429 e" by blast
      with stop have "m = nat retries" by blast
      with \<open>m < k\<close> k show False by simp
    qed
    ultimately have "m = k" by simp
    with res ok dl show ?thesis by simp
  qed
  have exhausted: "res = fn (nat retries) \<and> attempts tr = [0..<nat retries + 1]"
    if fails: "\<forall>i<k. \<exists>e. fn i = Rejected e \<and> carries_429 e"
      and k: "retries < int k" for k
  proof -
    from m k budget have "m < k" by simp
    with fails obtain e where "fn m = Rejected e" "carries_429 e" by blast
    with stop have "m = nat retries" by blast
    with res att show ?thesis by simp
  qed
  have "length (attempts tr) \<le> nat retries + 1"
    using m by (simp add: att)
  moreover have "attempts tr = [0..<length (delays tr) + 1]"
    by (subst len) (rule att)
  moreover have "delays tr = map (\<lambda>i. d * 2 ^ i) [0..<length (delays tr)]"
    by (subst len) (rule dl)
  moreover have "tr = retry_trace 0 d (length (delays tr))"
    by (subst len) (rule tr)
  moreover have "\<forall>i<length (delays tr). \<exists>e. fn i = Rejected e \<and> carries_429 e"
    by (subst len) (rule before)
  moreover have "res = fn (length (delays tr))"
    by (subst len) (rule res)
  moreover have "\<forall>e. res = Rejected e \<longrightarrow> \<not> carries_429 e \<or> length (delays tr) = nat retries"
    unfolding len res by (rule stop)
  ultimately show ?thesis
    using succ exhausted by blast
qed

text \<open>
  Runs of the sample operations: two rate-limited failures and a success within a
  budget of 3; the same operation with a budget of 1; a server error, which is not
  retried and comes back as it is.
\<close>

lemma withRetry_sample_runs:
  "withRetry flaky 0 3 1000
     = (Fulfilled 7, [Attempt 0, Delay 1000, Attempt 1, Delay 2000, Attempt 2])
   \<and> withRetry flaky 0 1 1000 = (Rejected rate_limit_error, [Attempt 0, Delay 1000, Attempt 1])
   \<and> carries_429 rate_limit_error
   \<and> withRetry rejects_server_error 0 3 1000 = (Rejected server_error, [Attempt 0])
   \<and> \<not> carries_429 server_error"
  by (simp add: withRetry.simps flaky_def rate_limit_error_def rejects_server_error_def
      server_error_def rate_limit_test_def carries_429_def occurs_in_def)

lemma withRetry_plain_contract_applied:
  "delays (snd (withRetry flaky 0 3 1000)) = [1000, 2000]
   \<and> fst (withRetry flaky 0 3 1000) = Fulfilled 7"
proof -
  have run: "withRetry flaky 0 3 1000
      = (Fulfilled 7, [Attempt 0, Delay 1000, Attempt 1, Delay 2000, Attempt 2])"
    using withRetry_sample_runs by blast
  have budget: "(0::int) \<le> 3" by simp
  have rl: "carries_429 rate_limit_error"
    using withRetry_sample_runs by blast
  have plain: "\<forall>i e. flaky i = Rejected e \<longrightarrow> plain_failure e"
    by (simp add: flaky_def rate_limit_error_def plain_failure_def)
  have fails: "\<forall>i<2. \<exists>e. flaky i = Rejected e \<and> carries_429 e"
    using rl by (simp add: flaky_def)
  have ok: "flaky 2 = Fulfilled 7" by (simp add: flaky_def)
  from withRetry_plain_contract [OF budget run plain] fails ok
  have "delays [Attempt 0, Delay 1000, Attempt 1, Delay 2000, Attempt 2]
      = map (\<lambda>i. 1000 * 2 ^ i) [0..<2]"
    by (auto simp del: delays.simps)
  with run show ?thesis
    by (simp add: upt_rec)
qed

text \<open>
  C2 (the retry wrapper propagates every failure without the rate-limit signal
  unchanged). With budget left, the wrapper tests \<^verbatim>\<open>error.message?.includes('429')\<close>
  on whatever was thrown. When the operation's promise is rejected with
  \<^verbatim>\<open>null\<close>, reading the message throws, and when the message is the number 503,
  calling \<^verbatim>\<open>includes\<close> throws: in both runs the caller gets the type error of the
  test, not the failure of the operation, which has no rate-limit signal. (With no
  budget left the test is skipped and the failure comes back as it is.)
\<close>

theorem withRetry_failure_replaced_by_type_error:
  "rejects_null 0 = Rejected (Thrown JNull)
   \<and> \<not> carries_429 (Thrown JNull)
   \<and> withRetry rejects_null 0 1 1000 = (Rejected type_error, [Attempt 0])
   \<and> type_error \<noteq> Thrown JNull
   \<and> rejects_status 0 = Rejected status_error
   \<and> \<not> carries_429 status_error
   \<and> withRetry rejects_status 0 1 1000 = (Rejected type_error, [Attempt 0])
   \<and> type_error \<noteq> status_error
   \<and> withRetry rejects_null 0 0 1000 = (Rejected (Thrown JNull), [Attempt 0])"
  by (simp add: withRetry.simps rejects_null_def rejects_status_def status_error_def
      type_error_def rate_limit_test_def carries_429_def)

section \<open>Audio decoder: properties\<close>

lemma length_Int16Array: "length (Int16Array data) = length data div 2"
  by (induction data rule: Int16Array.induct) simp_all

lemma nth_Int16Array:
  "k < length data div 2 \<Longrightarrow>
   Int16Array data ! k = word_cat (data ! (2 * k + 1)) (data ! (2 * k))"
proof (induction data arbitrary: k rule: Int16Array.induct)
  case (1 lo hi rest)
  then show ?case by (cases k) simp_all
qed simp_all

lemma frame_loop_length:
  "length (frame_loop d n c fc i cd) = length cd"
proof (induction d n c fc i cd rule: frame_loop.induct)
  case (1 d n c fc i cd)
  then show ?case by (subst frame_loop.simps) simp
qed

lemma frame_loop_nth:
  "j < length cd \<Longrightarrow>
   frame_loop d n c fc i cd ! j =
     (if i \<le> j \<and> of_nat j < fc then sample_at d (j * n + c) else cd ! j)"
proof (induction d n c fc i cd rule: frame_loop.induct)
  case (1 d n c fc i cd)
  show ?case
  proof (cases "of_nat i < fc")
    case True
    then have "frame_loop d n c fc i cd
        = frame_loop d n c fc (Suc i) (cd[i := sample_at d (i * n + c)])"
      by (subst frame_loop.simps) simp
    moreover have "frame_loop d n c fc (Suc i) (cd[i := sample_at d (i * n + c)]) ! j
        = (if Suc i \<le> j \<and> of_nat j < fc then sample_at d (j * n + c)
           else cd[i := sample_at d (i * n + c)] ! j)"
      using "1.IH" [OF True] "1.prems" by simp
    ultimately show ?thesis
      using True "1.prems" by (cases "i = j") auto
  next
    case False
    then have eq: "frame_loop d n c fc i cd = cd"
      by (subst frame_loop.simps) simp
    have "\<not> (i \<le> j \<and> of_nat j < fc)"
    proof
      assume a: "i \<le> j \<and> of_nat j < fc"
      then have "(of_nat i :: rat) \<le> of_nat j" by simp
      with a False show False by simp
    qed
    with eq show ?thesis by auto
  qed
qed

lemma channel_loop_result:
  "n \<le> length buffer \<Longrightarrow>
   \<exists>out. channel_loop d n fc ch buffer = Inr out \<and> length out = length buffer
     \<and> (\<forall>c<length buffer. out ! c =
          (if ch \<le> c \<and> c < n then frame_loop d n c fc 0 (buffer ! c) else buffer ! c))"
proof (induction d n fc ch buffer rule: channel_loop.induct)
  case (1 d n fc ch buffer)
  show ?case
  proof (cases "ch < n")
    case False
    then have "channel_loop d n fc ch buffer = Inr buffer"
      by (subst channel_loop.simps) simp
    with False show ?thesis by auto
  next
    case True
    with "1.prems" have inb: "ch < length buffer" by simp
    define buffer' where "buffer' = buffer[ch := frame_loop d n ch fc 0 (buffer ! ch)]"
    from True inb have step: "channel_loop d n fc ch buffer = channel_loop d n fc (Suc ch) buffer'"
      by (subst channel_loop.simps) (simp add: buffer'_def)
    from "1.IH" [OF True inb] "1.prems" obtain out where
      out: "channel_loop d n fc (Suc ch) buffer' = Inr out"
      and len: "length out = length buffer"
      and nth: "\<forall>c<length buffer. out ! c =
          (if Suc ch \<le> c \<and> c < n then frame_loop d n c fc 0 (buffer' ! c) else buffer' ! c)"
      by (auto simp: buffer'_def)
    have "\<forall>c<length buffer. out ! c =
          (if ch \<le> c \<and> c < n then frame_loop d n c fc 0 (buffer ! c) else buffer ! c)"
    proof (intro allI impI)
      fix c assume c: "c < length buffer"
      show "out ! c = (if ch \<le> c \<and> c < n then frame_loop d n c fc 0 (buffer ! c) else buffer ! c)"
      proof (cases "c = ch")
        case True
        with nth c inb \<open>ch < n\<close> show ?thesis by (simp add: buffer'_def)
      next
        case False
        with nth c show ?thesis by (auto simp: buffer'_def)
      qed
    qed
    with step out len show ?thesis by simp
  qed
qed

lemma sample_in_range:
  "- 1 \<le> real_of_int (sint (w :: 16 word)) / 32768 \<and> real_of_int (sint w) / 32768 < 1"
proof -
  have "- (2 ^ (LENGTH(16) - 1)) \<le> sint w" by (rule sint_ge)
  moreover have "sint w < 2 ^ (LENGTH(16) - 1)" by (rule sint_lt)
  ultimately have "- 32768 \<le> sint w" "sint w < 32768" by simp_all
  then have "real_of_int (- 32768) \<le> real_of_int (sint w)"
    and "real_of_int (sint w) < real_of_int 32768"
    by (simp_all only: of_int_le_iff of_int_less_iff)
  then show ?thesis by (simp del: of_int_sint)
qed


lemma js_divide_exact:
  assumes "0 < n" and "n dvd a"
  shows "js_divide a n = Finite (of_nat (a div n))"
proof -
  from assms(2) obtain q where a: "a = n * q" ..
  with assms(1) have "(of_nat a :: rat) / of_nat n = of_nat q" by simp
  moreover from a assms(1) have "a div n = q" by simp
  ultimately show ?thesis using assms(1) by (simp add: js_divide_def)
qed

lemma interleaved_index_bound:
  assumes "n dvd (a::nat)" and "i < a div n" and "c < n"
  shows "i * n + c < a"
proof -
  from assms(1) obtain q where a: "a = n * q" ..
  with assms(3) have q: "a div n = q" by simp
  from assms(2) q have "Suc i \<le> q" by simp
  then have "Suc i * n \<le> q * n" by (rule mult_le_mono1)
  with assms(3) a show ?thesis by (simp add: mult.commute)
qed

text \<open>
  C6 (the decoder). Let the byte buffer hold interleaved 16-bit samples, low byte
  first, their number \<open>length data div 2\<close> a multiple of the channel count, and let the
  audio context hand out a buffer of the requested shape. Then decoding returns
  \<open>numChannels\<close> channels of \<open>(length data div 2) div numChannels\<close> frames each, frame \<open>i\<close>
  of channel \<open>c\<close> is the signed 16-bit value at interleaved position
  \<open>i * numChannels + c\<close> divided by 32768, and every such value lies in \<open>[-1, 1)\<close>.
\<close>

theorem decodeAudioData_channels:
  assumes pos: "0 < numChannels"
    and dv: "numChannels dvd length data div 2"
    and alloc: "createBuffer numChannels (js_divide (length data div 2) numChannels) sampleRate
                  = Inr buffer"
    and chans: "length buffer = numChannels"
    and frames: "\<forall>channelData \<in> set buffer.
                   length channelData = length data div 2 div numChannels"
  shows "\<exists>out. decodeAudioData data createBuffer sampleRate numChannels = Inr out
     \<and> length out = numChannels
     \<and> (\<forall>c<numChannels.
           length (out ! c) = length data div 2 div numChannels
           \<and> (\<forall>i<length data div 2 div numChannels.
                 out ! c ! i =
                   Val (real_of_int (sint (word_cat (data ! (2 * (i * numChannels + c) + 1))
                                                    (data ! (2 * (i * numChannels + c))) :: 16 word))
                        / 32768)
                 \<and> (\<exists>v. out ! c ! i = Val v \<and> - 1 \<le> v \<and> v < 1)))"
proof -
  define d where "d = Int16Array data"
  define fc where "fc = length data div 2 div numChannels"
  have len_d: "length d = length data div 2"
    by (simp add: d_def length_Int16Array)
  have quot: "js_divide (length d) numChannels = Finite (of_nat fc)"
    using js_divide_exact [OF pos dv] by (simp add: len_d fc_def)
  from chans have "numChannels \<le> length buffer" by simp
  from channel_loop_result [OF this, of d "of_nat fc" 0] obtain out where
    out: "channel_loop d numChannels (of_nat fc) 0 buffer = Inr out"
    and len_out: "length out = length buffer"
    and nth_out: "\<forall>c<length buffer. out ! c =
        (if 0 \<le> c \<and> c < numChannels then frame_loop d numChannels c (of_nat fc) 0 (buffer ! c)
         else buffer ! c)"
    by blast
  have run: "decodeAudioData data createBuffer sampleRate numChannels = Inr out"
    using alloc quot out by (simp add: decodeAudioData_def d_def [symmetric] len_d)
  have chan: "length (out ! c) = fc \<and> (\<forall>i<fc.
        out ! c ! i =
          Val (real_of_int (sint (word_cat (data ! (2 * (i * numChannels + c) + 1))
                                           (data ! (2 * (i * numChannels + c))) :: 16 word))
               / 32768)
        \<and> (\<exists>v. out ! c ! i = Val v \<and> - 1 \<le> v \<and> v < 1))"
    if c: "c < numChannels" for c
  proof -
    from c chans have cb: "c < length buffer" by simp
    then have "buffer ! c \<in> set buffer" by simp
    with frames have len_c: "length (buffer ! c) = fc" by (simp add: fc_def)
    from nth_out cb c
    have oc: "out ! c = frame_loop d numChannels c (of_nat fc) 0 (buffer ! c)" by simp
    have "length (out ! c) = fc"
      by (simp add: oc frame_loop_length len_c)
    moreover have "out ! c ! i =
          Val (real_of_int (sint (word_cat (data ! (2 * (i * numChannels + c) + 1))
                                           (data ! (2 * (i * numChannels + c))) :: 16 word))
               / 32768)
        \<and> (\<exists>v. out ! c ! i = Val v \<and> - 1 \<le> v \<and> v < 1)" if i: "i < fc" for i
    proof -
      from i have j: "i * numChannels + c < length data div 2"
        using interleaved_index_bound [OF dv _ c] by (simp add: fc_def)
      from i len_c have "out ! c ! i = sample_at d (i * numChannels + c)"
        by (simp add: oc frame_loop_nth)
      also from j have "\<dots> = Val (real_of_int (sint (d ! (i * numChannels + c))) / 32768)"
        by (simp add: sample_at_def len_d del: of_int_sint)
      also from j have "d ! (i * numChannels + c)
          = word_cat (data ! (2 * (i * numChannels + c) + 1)) (data ! (2 * (i * numChannels + c)))"
        unfolding d_def by (rule nth_Int16Array)
      finally show ?thesis
        using sample_in_range by blast
    qed
    ultimately show ?thesis by blast
  qed
  from run len_out chans chan show ?thesis
    unfolding fc_def by blast
qed

theorem decodeAudioData_channels_witness:
  "decodeAudioData stereo_bytes createBuffer_silent 24000 2
     = Inr [ [Val 0, Val (- 1 / 2)], [Val (1 / 2), Val (32767 / 32768)]]
   \<and> length stereo_bytes div 2 = 4
   \<and> createBuffer_silent 2 (js_divide (length stereo_bytes div 2) 2) 24000
       = Inr [ [Val 0, Val 0], [Val 0, Val 0]]"
proof -
  have alloc: "createBuffer_silent 2 (js_divide (length stereo_bytes div 2) 2) 24000
      = Inr [ [Val 0, Val 0], [Val 0, Val 0]]"
    by (simp add: createBuffer_silent_def js_divide_def stereo_bytes_def)
       (simp add: numeral_2_eq_2)
  have dv: "(2::nat) dvd length stereo_bytes div 2"
    by (simp add: stereo_bytes_def)
  have run: "decodeAudioData stereo_bytes createBuffer_silent 24000 2
      = Inr [ [Val 0, Val (- 1 / 2)], [Val (1 / 2), Val (32767 / 32768)]]"
    apply (simp add: decodeAudioData_def stereo_bytes_def createBuffer_silent_def js_divide_def
        channel_loop.simps frame_loop.simps sample_at_def word_cat_eq)
    apply (simp add: numeral_2_eq_2)
    done
  from decodeAudioData_channels [of 2 stereo_bytes createBuffer_silent 24000
      "[ [Val 0, Val 0], [Val 0, Val 0]]", OF _ dv alloc]
  have "\<exists>out. decodeAudioData stereo_bytes createBuffer_silent 24000 2 = Inr out
      \<and> length out = 2"
    by (auto simp: stereo_bytes_def)
  with run alloc show ?thesis
    by (simp add: stereo_bytes_def)
qed

section \<open>Insight display: properties\<close>

lemmas sample_defs = some_key_def yong_def he_def info_yong_def info_yong_again_def info_he_def
  info_incomplete_def key_char_def key_meaning_def key_pinyin_def key_zhuyin_def

lemmas nav_defs = initial_state_def DEFAULT_TEXT_def characters_def nonWhitespace_def
  isWhiteSpace_def currentChar_def handleNext_def handlePrev_def

text \<open>
  C3 as stated (a result for a character that is no longer active is discarded)
  fails: the App mounts on the first character and starts its fetch, the user moves
  to the second character, whose fetch resolves first; when the fetch for the first
  character resolves afterwards, its result replaces the displayed insight although
  the second character is the active one.
\<close>

theorem stale_insight_overwrites_current:
  "in_flight (session_run initial_session [Mount, Navigate ClickNext]) = [yong, he]
   \<and> currentChar (app (view (session_run initial_session
         [Mount, Navigate ClickNext, FetchResolves 1 info_he, FetchResolves 0 info_yong]))) = he
   \<and> insights (app (view (session_run initial_session
         [Mount, Navigate ClickNext, FetchResolves 1 info_he, FetchResolves 0 info_yong])))
       = info_yong
   \<and> info_yong \<noteq> info_he"
  by (simp add: session_run_def initial_session_def start_fetch_def fetchInsights_begin_def
      fetchInsights_resume_def truthy_def nav_defs sample_defs Let_def)

text \<open>
  C3, amended. The result of a fetch is applied without regard to the character it
  was requested for: whenever a fetch in flight resolves, its result becomes the
  displayed insight and the loading flag is cleared, whatever the active character
  is; the position and the active character are left as they are.
\<close>

theorem fetch_result_applied_unkeyed:
  assumes "k < length (in_flight x)"
  shows "insights (app (view (session_step x (FetchResolves k data)))) = data
     \<and> isLoadingInsights (app (view (session_step x (FetchResolves k data)))) = False
     \<and> currentChar (app (view (session_step x (FetchResolves k data))))
         = currentChar (app (view x))
     \<and> currentIndex (app (view (session_step x (FetchResolves k data))))
         = currentIndex (app (view x))
     \<and> in_flight (session_step x (FetchResolves k data))
         = take k (in_flight x) @ drop (Suc k) (in_flight x)"
  using assms by (simp add: fetchInsights_resume_def currentChar_def characters_def)

theorem fetch_result_applied_unkeyed_witness:
  "in_flight (session_run initial_session [Mount, Navigate ClickNext]) = [yong, he]
   \<and> currentChar (app (view (session_run initial_session [Mount, Navigate ClickNext]))) = he
   \<and> insights (app (view (session_step (session_run initial_session [Mount, Navigate ClickNext])
         (FetchResolves 0 info_yong)))) = info_yong
   \<and> currentChar (app (view (session_step (session_run initial_session [Mount, Navigate ClickNext])
         (FetchResolves 0 info_yong)))) = he"
proof -
  have fl: "in_flight (session_run initial_session [Mount, Navigate ClickNext]) = [yong, he]"
    by (simp add: session_run_def initial_session_def start_fetch_def fetchInsights_begin_def
        truthy_def nav_defs sample_defs Let_def)
  have cur: "currentChar (app (view (session_run initial_session [Mount, Navigate ClickNext]))) = he"
    by (simp add: session_run_def initial_session_def start_fetch_def fetchInsights_begin_def
        truthy_def nav_defs sample_defs Let_def)
  have "0 < length (in_flight (session_run initial_session [Mount, Navigate ClickNext]))"
    by (simp add: fl)
  from fetch_result_applied_unkeyed [OF this, of info_yong] fl cur
  show ?thesis by simp
qed

section \<open>Insight fetch and cache: properties\<close>

lemma start_hit:
  "has_key apiKey \<Longrightarrow> truthy char \<Longrightarrow> insightsCache char = Some v \<Longrightarrow> json_truthy v \<Longrightarrow>
   getCharacterInsights_start apiKey insightsCache char = Done v"
  by (simp add: getCharacterInsights_start_def)

lemma settle_cache:
  "cache_after (getCharacterInsights_settle insightsCache char outcome) =
     (case outcome of Fulfilled (Parses result) \<Rightarrow> insightsCache(char \<mapsto> result)
      | _ \<Rightarrow> insightsCache)"
  by (simp add: getCharacterInsights_settle_def insights_try_def
      split: settled.splits response_text.splits)

lemma settle_dom: "dom insightsCache \<subseteq> dom (cache_after (getCharacterInsights_settle insightsCache char outcome))"
  by (auto simp: settle_cache split: settled.splits response_text.splits)

lemma settle_other:
  "c \<noteq> char \<Longrightarrow> cache_after (getCharacterInsights_settle insightsCache char outcome) c = insightsCache c"
  by (simp add: settle_cache split: settled.splits response_text.splits)

lemma call_cases:
  "getCharacterInsights apiKey gen insightsCache char =
     (case getCharacterInsights_start apiKey insightsCache char of
        Done v \<Rightarrow> (\<lparr>returned = v, cache_after = insightsCache, logged = []\<rparr>, [])
      | Pending \<Rightarrow> (getCharacterInsights_settle insightsCache char (fst (withRetry gen 0 1 1000)),
                    snd (withRetry gen 0 1 1000)))"
  by (simp add: getCharacterInsights_def split: started.splits prod.splits)

lemma start_pending_miss:
  "getCharacterInsights_start apiKey insightsCache char = Pending \<Longrightarrow>
   insightsCache char = Some w \<Longrightarrow> \<not> json_truthy w"
  by (auto simp: getCharacterInsights_start_def split: if_splits)

lemma call_keeps_truthy:
  assumes "insightsCache c = Some w" and "json_truthy w"
  shows "cache_after (fst (getCharacterInsights apiKey gen insightsCache char)) c = Some w"
proof (cases "getCharacterInsights_start apiKey insightsCache char")
  case (Done v)
  with assms show ?thesis by (simp add: call_cases)
next
  case Pending
  with assms start_pending_miss [OF Pending] have "c \<noteq> char" by blast
  with Pending assms show ?thesis by (simp add: call_cases settle_other)
qed

lemma call_dom:
  "dom insightsCache \<subseteq> dom (cache_after (fst (getCharacterInsights apiKey gen insightsCache char)))"
  using settle_dom by (cases "getCharacterInsights_start apiKey insightsCache char")
    (auto simp: call_cases)


text \<open>
  C8 as stated (a stored entry is never replaced, and later calls return the
  identical value) fails when two calls for the same character overlap: both start
  on the empty cache and issue a request; the first to settle stores its value, and
  a call made now returns it; when the second settles it stores its own value
  over the first, and a call made after that returns the second value.
\<close>

theorem insight_entry_replaced_by_overlapping_call:
  "getCharacterInsights_start some_key Map.empty yong = Pending
   \<and> cache_after (getCharacterInsights_settle Map.empty yong (Fulfilled (Parses info_yong))) yong
       = Some info_yong
   \<and> json_truthy info_yong
   \<and> getCharacterInsights_start some_key
        (cache_after (getCharacterInsights_settle Map.empty yong (Fulfilled (Parses info_yong))))
        yong = Done info_yong
   \<and> cache_after (getCharacterInsights_settle
        (cache_after (getCharacterInsights_settle Map.empty yong (Fulfilled (Parses info_yong))))
        yong (Fulfilled (Parses info_yong_again))) yong = Some info_yong_again
   \<and> getCharacterInsights_start some_key
        (cache_after (getCharacterInsights_settle
          (cache_after (getCharacterInsights_settle Map.empty yong (Fulfilled (Parses info_yong))))
          yong (Fulfilled (Parses info_yong_again))))
        yong = Done info_yong_again
   \<and> info_yong_again \<noteq> info_yong"
  by (simp add: getCharacterInsights_start_def settle_cache has_key_def truthy_def sample_defs)

text \<open>
  C8, amended. A call made with a credential for a character whose cache entry holds
  a truthy value returns that value, issues no request and leaves the cache as it
  is. No call removes an entry; the second part of a call writes at most the entry
  of its own character; and a call that no other call overlaps leaves every truthy
  entry in place. (Only a request for the same character that was in flight when
  the value was stored overwrites it when it settles.)
\<close>

theorem insight_cache_hit_and_growth:
  "(has_key apiKey \<and> truthy char \<and> insightsCache char = Some v \<and> json_truthy v
      \<longrightarrow> getCharacterInsights apiKey generateContent insightsCache char
            = (\<lparr>returned = v, cache_after = insightsCache, logged = []\<rparr>, []))
   \<and> dom insightsCache
        \<subseteq> dom (cache_after (getCharacterInsights_settle insightsCache char outcome))
   \<and> (\<forall>c. c \<noteq> char \<longrightarrow>
          cache_after (getCharacterInsights_settle insightsCache char outcome) c = insightsCache c)
   \<and> dom insightsCache
        \<subseteq> dom (cache_after (fst (getCharacterInsights apiKey generateContent insightsCache char)))
   \<and> (\<forall>c w. insightsCache c = Some w \<and> json_truthy w \<longrightarrow>
          cache_after (fst (getCharacterInsights apiKey generateContent insightsCache char)) c
            = Some w)"
proof (intro conjI allI impI)
  assume "has_key apiKey \<and> truthy char \<and> insightsCache char = Some v \<and> json_truthy v"
  then have "getCharacterInsights_start apiKey insightsCache char = Done v"
    by (simp add: start_hit)
  then show "getCharacterInsights apiKey generateContent insightsCache char
      = (\<lparr>returned = v, cache_after = insightsCache, logged = []\<rparr>, [])"
    by (simp add: call_cases)
next
  show "dom insightsCache
      \<subseteq> dom (cache_after (getCharacterInsights_settle insightsCache char outcome))"
    by (rule settle_dom)
next
  fix c assume "c \<noteq> char"
  then show "cache_after (getCharacterInsights_settle insightsCache char outcome) c
      = insightsCache c"
    by (rule settle_other)
next
  show "dom insightsCache
      \<subseteq> dom (cache_after (fst (getCharacterInsights apiKey generateContent insightsCache char)))"
    by (rule call_dom)
next
  fix c w assume "insightsCache c = Some w \<and> json_truthy w"
  then show "cache_after (fst (getCharacterInsights apiKey generateContent insightsCache char)) c
      = Some w"
    by (simp add: call_keeps_truthy)
qed

theorem insight_cache_hit_and_growth_witness:
  "has_key some_key \<and> truthy yong \<and> json_truthy info_yong
   \<and> getCharacterInsights some_key answers_incomplete [yong \<mapsto> info_yong] yong
       = (\<lparr>returned = info_yong, cache_after = [yong \<mapsto> info_yong], logged = []\<rparr>, [])
   \<and> cache_after (fst (getCharacterInsights some_key answers_incomplete [yong \<mapsto> info_yong] he))
        yong = Some info_yong"
proof -
  have k: "has_key some_key" "truthy yong" "json_truthy info_yong"
    by (simp_all add: has_key_def truthy_def sample_defs)
  have e: "[yong \<mapsto> info_yong] yong = Some info_yong" by simp
  from insight_cache_hit_and_growth
    [of some_key yong "[yong \<mapsto> info_yong]" info_yong answers_incomplete "Fulfilled NoText"] k e
  have 1: "getCharacterInsights some_key answers_incomplete [yong \<mapsto> info_yong] yong
       = (\<lparr>returned = info_yong, cache_after = [yong \<mapsto> info_yong], logged = []\<rparr>, [])"
    by blast
  from insight_cache_hit_and_growth
    [of some_key he "[yong \<mapsto> info_yong]" info_yong answers_incomplete "Fulfilled NoText"] k e
  have 2: "cache_after (fst (getCharacterInsights some_key answers_incomplete [yong \<mapsto> info_yong] he))
        yong = Some info_yong"
    by blast
  from k 1 2 show ?thesis by simp
qed

text \<open>
  C9 as stated (a response that lacks a required field is a failure and gives an
  absent result) fails: the parsed response is returned and stored as it is. The
  answer here has only the field char; it is returned, nothing is logged, and it
  is in the cache afterwards.
\<close>

theorem insights_missing_field_returned:
  "\<not> has_required_fields info_incomplete
   \<and> returned (fst (getCharacterInsights some_key answers_incomplete Map.empty yong))
       = info_incomplete
   \<and> info_incomplete \<noteq> JNull
   \<and> logged (fst (getCharacterInsights some_key answers_incomplete Map.empty yong)) = []
   \<and> cache_after (fst (getCharacterInsights some_key answers_incomplete Map.empty yong)) yong
       = Some info_incomplete"
  by (simp add: getCharacterInsights_def getCharacterInsights_start_def
      getCharacterInsights_settle_def insights_try_def withRetry.simps answers_incomplete_def
      has_required_fields_def has_key_def truthy_def sample_defs)

text \<open>
  C9, amended. The call never throws: every exception of the request and of the
  parsing is caught. Without a credential, or for an empty character, it returns
  the absent value at once, with no request and the cache unchanged. Otherwise, on
  a cache miss, it makes at most two requests; when the request is rejected, the
  response has no text or the text is not JSON, it logs the error and returns the
  absent value with the cache unchanged. A text that parses is not validated
  against the schema: the parsed value is stored under the character and returned.
\<close>

theorem getCharacterInsights_absent_on_failure:
  "(\<not> has_key apiKey \<or> \<not> truthy char \<longrightarrow>
      getCharacterInsights apiKey generateContent insightsCache char
        = (\<lparr>returned = JNull, cache_after = insightsCache, logged = []\<rparr>, []))
   \<and> (getCharacterInsights_start apiKey insightsCache char = Pending \<longrightarrow>
        length (attempts (snd (getCharacterInsights apiKey generateContent insightsCache char))) \<le> 2
        \<and> (\<forall>e. fst (withRetry generateContent 0 1 1000) = Rejected e \<longrightarrow>
              fst (getCharacterInsights apiKey generateContent insightsCache char)
                = \<lparr>returned = JNull, cache_after = insightsCache, logged = [e]\<rparr>)
        \<and> (fst (withRetry generateContent 0 1 1000) = Fulfilled NoText \<longrightarrow>
              fst (getCharacterInsights apiKey generateContent insightsCache char)
                = \<lparr>returned = JNull, cache_after = insightsCache, logged = [type_error]\<rparr>)
        \<and> (fst (withRetry generateContent 0 1 1000) = Fulfilled Malformed \<longrightarrow>
              fst (getCharacterInsights apiKey generateContent insightsCache char)
                = \<lparr>returned = JNull, cache_after = insightsCache, logged = [syntax_error]\<rparr>)
        \<and> (\<forall>v. fst (withRetry generateContent 0 1 1000) = Fulfilled (Parses v) \<longrightarrow>
              fst (getCharacterInsights apiKey generateContent insightsCache char)
                = \<lparr>returned = v, cache_after = insightsCache(char \<mapsto> v), logged = []\<rparr>))"
proof -
  obtain res tr where run: "withRetry generateContent 0 1 1000 = (res, tr)"
    by (cases "withRetry generateContent 0 1 1000")
  from withRetry_attempts_bound [of 1 generateContent 0 1000]
  have att: "length (attempts tr) \<le> 2" by (simp add: run)
  show ?thesis
  proof (intro conjI allI impI)
    assume "\<not> has_key apiKey \<or> \<not> truthy char"
    then have "getCharacterInsights_start apiKey insightsCache char = Done JNull"
      by (auto simp: getCharacterInsights_start_def)
    then show "getCharacterInsights apiKey generateContent insightsCache char
        = (\<lparr>returned = JNull, cache_after = insightsCache, logged = []\<rparr>, [])"
      by (simp add: call_cases)
  next
    assume "getCharacterInsights_start apiKey insightsCache char = Pending"
    then show "length (attempts (snd (getCharacterInsights apiKey generateContent insightsCache char))) \<le> 2"
      using att by (simp add: call_cases run)
  next
    fix e
    assume "getCharacterInsights_start apiKey insightsCache char = Pending"
      and "fst (withRetry generateContent 0 1 1000) = Rejected e"
    then show "fst (getCharacterInsights apiKey generateContent insightsCache char)
        = \<lparr>returned = JNull, cache_after = insightsCache, logged = [e]\<rparr>"
      by (simp add: call_cases getCharacterInsights_settle_def insights_try_def)
  next
    assume "getCharacterInsights_start apiKey insightsCache char = Pending"
      and "fst (withRetry generateContent 0 1 1000) = Fulfilled NoText"
    then show "fst (getCharacterInsights apiKey generateContent insightsCache char)
        = \<lparr>returned = JNull, cache_after = insightsCache, logged = [type_error]\<rparr>"
      by (simp add: call_cases getCharacterInsights_settle_def insights_try_def)
  next
    assume "getCharacterInsights_start apiKey insightsCache char = Pending"
      and "fst (withRetry generateContent 0 1 1000) = Fulfilled Malformed"
    then show "fst (getCharacterInsights apiKey generateContent insightsCache char)
        = \<lparr>returned = JNull, cache_after = insightsCache, logged = [syntax_error]\<rparr>"
      by (simp add: call_cases getCharacterInsights_settle_def insights_try_def)
  next
    fix v
    assume "getCharacterInsights_start apiKey insightsCache char = Pending"
      and "fst (withRetry generateContent 0 1 1000) = Fulfilled (Parses v)"
    then show "fst (getCharacterInsights apiKey generateContent insightsCache char)
        = \<lparr>returned = v, cache_after = insightsCache(char \<mapsto> v), logged = []\<rparr>"
      by (simp add: call_cases getCharacterInsights_settle_def insights_try_def)
  qed
qed

theorem getCharacterInsights_absent_on_failure_witness:
  "has_key some_key \<and> truthy yong
   \<and> getCharacterInsights_start some_key Map.empty yong = Pending
   \<and> fst (withRetry answers_malformed 0 1 1000) = Fulfilled Malformed
   \<and> returned (fst (getCharacterInsights some_key answers_malformed Map.empty yong)) = JNull
   \<and> logged (fst (getCharacterInsights some_key answers_malformed Map.empty yong)) = [syntax_error]
   \<and> getCharacterInsights None answers_malformed Map.empty yong
       = (\<lparr>returned = JNull, cache_after = Map.empty, logged = []\<rparr>, [])"
proof -
  have k: "has_key some_key" "truthy yong" "\<not> has_key None"
    by (simp_all add: has_key_def truthy_def sample_defs)
  have p: "getCharacterInsights_start some_key Map.empty yong = Pending"
    using k by (simp add: getCharacterInsights_start_def)
  have w: "fst (withRetry answers_malformed 0 1 1000) = Fulfilled Malformed"
    by (simp add: withRetry.simps answers_malformed_def)
  from getCharacterInsights_absent_on_failure
    [of some_key yong answers_malformed Map.empty] p w
  have 1: "fst (getCharacterInsights some_key answers_malformed Map.empty yong)
      = \<lparr>returned = JNull, cache_after = Map.empty, logged = [syntax_error]\<rparr>"
    by blast
  from getCharacterInsights_absent_on_failure
    [of None yong answers_malformed Map.empty] k
  have 2: "getCharacterInsights None answers_malformed Map.empty yong
       = (\<lparr>returned = JNull, cache_after = Map.empty, logged = []\<rparr>, [])"
    by blast
  from k p w 1 2 show ?thesis by simp
qed

section \<open>Pronunciation: properties\<close>

lemma flag_writes_append [simp]: "flag_writes (xs @ ys) = flag_writes xs @ flag_writes ys"
  by (induction xs rule: flag_writes.induct) simp_all

lemma flag_writes_map_SpeechRequest [simp]: "flag_writes (map SpeechRequest tr) = []"
  by (induction tr) simp_all

lemma flag_writes_replicate [simp]:
  "flag_writes (replicate n (SetIsSpeaking b)) = replicate n b"
  by (induction n) simp_all

lemma flag_writes_handlers:
  "flag_writes (concat (map utterance_handler evs)) = replicate (length evs) False"
proof (induction evs)
  case Nil
  show ?case by simp
next
  case (Cons ev evs)
  then show ?case by (cases ev) simp_all
qed

lemma apply_effects_flag:
  "isSpeaking (apply_effects effs s) =
     (if flag_writes effs = [] then isSpeaking s else last (flag_writes effs))"
  unfolding apply_effects_def
proof (induction effs arbitrary: s)
  case Nil
  show ?case by simp
next
  case (Cons e effs)
  show ?case by (cases e) (simp_all add: Cons)
qed

lemma play_promise_settles:
  "\<exists>ev \<in> set evs. ev \<noteq> AudioEnded \<Longrightarrow> play_promise evs \<noteq> None"
  by (induction evs rule: play_promise.induct) simp_all

lemma playCloudTTS_no_flag: "flag_writes (snd (playCloudTTS text apiKey simplified env)) = []"
  by (simp add: playCloudTTS_def split: sum.splits)

lemma playCloudTTS_settles:
  "\<exists>ev \<in> set (audio_events env). ev \<noteq> AudioEnded \<Longrightarrow>
   fst (playCloudTTS text apiKey simplified env) \<noteq> None"
proof -
  assume "\<exists>ev \<in> set (audio_events env). ev \<noteq> AudioEnded"
  then have "play_promise (audio_events env) \<noteq> None"
    by (rule play_promise_settles)
  then show ?thesis
    by (auto simp: playCloudTTS_def cloud_try_def
        split: sum.splits settled.splits http_response.splits error_body.splits ok_body.splits)
qed

lemma generateSpeech_no_flag:
  "generateSpeech apiKey gen cache text = (audio, cache', effs) \<Longrightarrow> flag_writes effs = []"
  by (auto simp: generateSpeech_def
      split: if_splits prod.splits settled.splits option.splits bool.splits)

lemma cloud_continuation_flag:
  "outcome \<noteq> None \<Longrightarrow>
   flag_writes (case outcome of
       None \<Rightarrow> []
     | Some (Fulfilled audio) \<Rightarrow> [SetIsSpeaking False]
     | Some (Rejected error) \<Rightarrow> [ConsoleError error, SetIsSpeaking False]) = [False]"
  by (auto split: option.splits settled.splits)

lemma playPronunciation_flag_writes:
  assumes "\<not> isSpeaking r" and "truthy (currentChar r)"
    and "\<exists>ev \<in> set (audio_events (cloud env)). ev \<noteq> AudioEnded"
    and "\<forall>evs. speech env = Spoken evs \<longrightarrow> length evs = 1"
  shows "flag_writes (playPronunciation env r) = [True, False]"
proof (cases "useCloudVoice r")
  case False
  show ?thesis
  proof (cases "speech env")
    case (UtteranceThrows e)
    with assms False show ?thesis by (simp add: playPronunciation_def)
  next
    case (SpeakThrows e)
    with assms False show ?thesis by (simp add: playPronunciation_def)
  next
    case (Spoken evs)
    with assms(4) have "length evs = 1" by simp
    with assms(1,2) False Spoken show ?thesis
      by (simp add: playPronunciation_def flag_writes_handlers)
  qed
next
  case True
  define apiKey where "apiKey = (case api_key env of None \<Rightarrow> [] | Some k \<Rightarrow> k)"
  show ?thesis
  proof (cases "truthy apiKey")
    case False
    with assms(1,2) True show ?thesis
      by (simp add: playPronunciation_def apiKey_def)
  next
    case key: True
    obtain outcome effs where
      run: "playCloudTTS (currentChar r) apiKey (isSimplified r) (cloud env) = (outcome, effs)"
      by (cases "playCloudTTS (currentChar r) apiKey (isSimplified r) (cloud env)")
    from playCloudTTS_no_flag [of "currentChar r" apiKey "isSimplified r" "cloud env"] run
    have effs: "flag_writes effs = []" by simp
    from playCloudTTS_settles [OF assms(3), of "currentChar r" apiKey "isSimplified r"] run
    have "outcome \<noteq> None" by simp
    then have cont: "flag_writes (case outcome of
         None \<Rightarrow> []
       | Some (Fulfilled audio) \<Rightarrow> [SetIsSpeaking False]
       | Some (Rejected error) \<Rightarrow> [ConsoleError error, SetIsSpeaking False]) = [False]"
      by (rule cloud_continuation_flag)
    from assms(1,2) True key run effs cont show ?thesis
      by (simp add: playPronunciation_def apiKey_def [symmetric])
  qed
qed

lemma playPronunciation_alt_flag_writes:
  assumes "\<not> isSpeaking r" and "truthy (currentChar r)" and "ended_events penv = 1"
  shows "flag_writes (playPronunciation_alt apiKey gen cache penv r) = [True, False]"
proof -
  obtain audio cache' effs where
    run: "generateSpeech apiKey gen cache (currentChar r) = (audio, cache', effs)"
    by (cases "generateSpeech apiKey gen cache (currentChar r)")
  from generateSpeech_no_flag [OF run] have effs: "flag_writes effs = []" .
  have once: "replicate n (SetIsSpeaking False) = [SetIsSpeaking False]"
    if "playback_try penv b = Inr n" for b n
  proof -
    from that have "n = ended_events penv"
      by (auto simp: playback_try_def split: option.splits sum.splits)
    with assms(3) have "n = Suc 0" by simp
    then show ?thesis by simp
  qed
  show ?thesis
  proof (cases audio)
    case (Inl error)
    with assms(1,2) run effs show ?thesis
      by (simp add: playPronunciation_alt_def)
  next
    case (Inr base64Audio)
    show ?thesis
    proof (cases base64Audio)
      case None
      with assms(1,2) run effs Inr show ?thesis
        by (simp add: playPronunciation_alt_def)
    next
      case (Some b)
      show ?thesis
      proof (cases "playback_try penv b")
        case (Inl e)
        with assms(1,2) run effs Inr Some show ?thesis
          by (simp add: playPronunciation_alt_def)
      next
        case started: (Inr n)
        from once [OF started] assms(1,2) run effs Inr Some started show ?thesis
          by (simp add: playPronunciation_alt_def)
      qed
    qed
  qed
qed


lemmas fixture_defs = local_env_def cloud_ok_env_def playing_env_def speech_answers_def
  cloud_state_def speaking_state_def idle_session_def atob_one_sample_def some_key_def yong_def

lemma playPronunciation_guard:
  "isSpeaking r \<or> \<not> truthy (currentChar r) \<Longrightarrow> playPronunciation env r = []"
  by (simp add: playPronunciation_def)

lemma playPronunciation_sets_first:
  "\<not> isSpeaking r \<Longrightarrow> truthy (currentChar r) \<Longrightarrow>
   \<exists>rest. playPronunciation env r = SetIsSpeaking True # rest"
  by (simp add: playPronunciation_def)

lemma playPronunciation_Cons:
  "playPronunciation env r = e # rest \<Longrightarrow> \<not> isSpeaking r \<and> e = SetIsSpeaking True"
  by (auto simp: playPronunciation_def split: if_splits)

lemma pending_ok_snoc:
  "flag_writes effs = [] \<Longrightarrow> pending_ok (effs @ [SetIsSpeaking False])"
  by (simp add: pending_ok_def)

lemma playPronunciation_pending:
  assumes "platform_ok (ClickSpeak env)" and "playPronunciation env r = e # rest"
  shows "pending_ok rest"
proof -
  from assms(2) have g: "\<not> isSpeaking r" "truthy (currentChar r)"
    by (auto simp: playPronunciation_def split: if_splits)
  show ?thesis
  proof (cases "useCloudVoice r")
    case False
    show ?thesis
    proof (cases "speech env")
      case (UtteranceThrows err)
      with assms(2) g False show ?thesis
        by (auto simp: playPronunciation_def pending_ok_def)
    next
      case (SpeakThrows err)
      with assms(2) g False show ?thesis
        by (auto simp: playPronunciation_def pending_ok_def)
    next
      case (Spoken evs)
      with assms(1) have "evs = [] \<or> (\<exists>ev. evs = [ev])"
        by (cases evs) auto
      then have "pending_ok (SpeechCancel # SpeechSpeak (currentChar r) #
          concat (map utterance_handler evs))"
      proof
        assume "evs = []"
        then show ?thesis by (simp add: pending_ok_def)
      next
        assume "\<exists>ev. evs = [ev]"
        then obtain ev where "evs = [ev]" ..
        then show ?thesis by (cases ev) (simp_all add: pending_ok_def)
      qed
      with assms(2) g False Spoken show ?thesis
        by (auto simp: playPronunciation_def)
    qed
  next
    case True
    define apiKey where "apiKey = (case api_key env of None \<Rightarrow> [] | Some k \<Rightarrow> k)"
    show ?thesis
    proof (cases "truthy apiKey")
      case False
      with assms(2) g True show ?thesis
        by (auto simp: playPronunciation_def apiKey_def pending_ok_def)
    next
      case key: True
      obtain outcome effs where
        run: "playCloudTTS (currentChar r) apiKey (isSimplified r) (cloud env) = (outcome, effs)"
        by (cases "playCloudTTS (currentChar r) apiKey (isSimplified r) (cloud env)")
      from playCloudTTS_no_flag [of "currentChar r" apiKey "isSimplified r" "cloud env"] run
      have effs: "flag_writes effs = []" by simp
      have "pending_ok (effs @ (case outcome of
           None \<Rightarrow> []
         | Some (Fulfilled audio) \<Rightarrow> [SetIsSpeaking False]
         | Some (Rejected error) \<Rightarrow> [ConsoleError error, SetIsSpeaking False]))"
        using effs by (auto simp: pending_ok_def split: option.splits settled.splits)
      with assms(2) g True key run show ?thesis
        by (auto simp: playPronunciation_def apiKey_def [symmetric])
    qed
  qed
qed

lemma flag_writes_last:
  "tr \<noteq> [] \<Longrightarrow> last tr = SetIsSpeaking b \<Longrightarrow> flag_writes tr \<noteq> []"
  by (induction tr rule: flag_writes.induct) (auto split: if_splits)

lemma pending_ok_Cons:
  assumes "pending_ok (e # rest)" and "rest \<noteq> []"
  shows "pending_ok rest \<and> apply_effect s e = s"
proof (cases "flag_writes (e # rest) = []")
  case True
  then show ?thesis by (cases e) (simp_all add: pending_ok_def)
next
  case False
  with assms have l: "last rest = SetIsSpeaking False" and f: "flag_writes (e # rest) = [False]"
    by (simp_all add: pending_ok_def)
  from assms(2) l have "flag_writes rest \<noteq> []" by (rule flag_writes_last)
  with f assms(2) l show ?thesis
    by (cases e) (auto simp: pending_ok_def)
qed

lemma speak_step_one_in_flight:
  assumes inv: "one_in_flight x" and ok: "platform_ok ev"
  shows "one_in_flight (speak_step x ev)"
proof (cases ev)
  case (ClickSpeak env)
  show ?thesis
  proof (cases "playPronunciation env (state x)")
    case Nil
    with ClickSpeak inv show ?thesis by simp
  next
    case (Cons e rest)
    from playPronunciation_Cons [OF Cons] have idle: "\<not> isSpeaking (state x)"
      and e: "e = SetIsSpeaking True" by simp_all
    from inv idle have "running x = []"
      by (cases "running x") (auto simp: one_in_flight_def)
    moreover from ok ClickSpeak Cons have "pending_ok rest"
      using playPronunciation_pending by blast
    ultimately show ?thesis
      using ClickSpeak Cons e by (simp add: one_in_flight_def)
  qed
next
  case (Progress k)
  show ?thesis
  proof (cases "k < length (running x)")
    case False
    with Progress inv show ?thesis by simp
  next
    case True
    with inv obtain tr where r: "running x = [tr]" and k: "k = 0"
      by (cases "running x") (auto simp: one_in_flight_def)
    from inv r have sp: "isSpeaking (state x)" and p: "pending_ok tr"
      by (simp_all add: one_in_flight_def)
    show ?thesis
    proof (cases tr)
      case Nil
      with Progress r k inv show ?thesis by simp
    next
      case (Cons e rest)
      show ?thesis
      proof (cases "rest = []")
        case True
        with Progress r k Cons show ?thesis by (simp add: one_in_flight_def)
      next
        case False
        from pending_ok_Cons [OF p [unfolded Cons] False, of "state x"]
        have "pending_ok rest" and "apply_effect (state x) e = state x" by simp_all
        with Progress r k Cons False sp show ?thesis by (simp add: one_in_flight_def)
      qed
    qed
  qed
next
  case (Other f)
  with inv show ?thesis by (simp add: one_in_flight_def)
qed

lemma speak_run_one_in_flight:
  "one_in_flight x \<Longrightarrow> \<forall>ev \<in> set evs. platform_ok ev \<Longrightarrow> one_in_flight (speak_run x evs)"
  unfolding speak_run_def
proof (induction evs arbitrary: x)
  case Nil
  then show ?case by simp
next
  case (Cons ev evs)
  from Cons.prems have "one_in_flight (speak_step x ev)"
    by (simp add: speak_step_one_in_flight)
  with Cons show ?case by simp
qed


lemma apply_effects_position:
  "activeText (apply_effects effs s) = activeText s
   \<and> currentIndex (apply_effects effs s) = currentIndex s"
  unfolding apply_effects_def
proof (induction effs arbitrary: s)
  case Nil
  show ?case by simp
next
  case (Cons e effs)
  show ?case by (cases e) (simp_all add: Cons)
qed

lemma apply_effects_currentChar: "currentChar (apply_effects effs s) = currentChar s"
  by (simp add: currentChar_def characters_def apply_effects_position)

text \<open>
  C1 (the speaking flag is cleared exactly once). Take a call that passes the guard,
  on a platform that keeps its side: the playback promise of the cloud path is
  settled by the play promise or an error event, the local engine fires exactly one
  of \<^verbatim>\<open>end\<close> and \<^verbatim>\<open>error\<close> for a spoken utterance, and a started buffer source
  fires \<^verbatim>\<open>ended\<close> once. Then, whichever branch is taken and however it ends
  (playback, missing credential, failed request, decode failure, playback error,
  synthesis error), the call writes the flag exactly twice, \<open>True\<close> at the start and
  \<open>False\<close> once, and the flag is false when all effects of the call have happened;
  this holds for both App components.
\<close>

theorem speaking_flag_cleared_once:
  assumes "\<not> isSpeaking r" and "truthy (currentChar r)"
    and "\<exists>ev \<in> set (audio_events (cloud env)). ev \<noteq> AudioEnded"
    and "\<forall>evs. speech env = Spoken evs \<longrightarrow> length evs = 1"
    and "ended_events penv = 1"
  shows "flag_writes (playPronunciation env r) = [True, False]
     \<and> isSpeaking (apply_effects (playPronunciation env r) s) = False
     \<and> flag_writes (playPronunciation_alt apiKey generateContent speechCache penv r)
         = [True, False]
     \<and> isSpeaking (apply_effects
           (playPronunciation_alt apiKey generateContent speechCache penv r) s) = False"
proof -
  have 1: "flag_writes (playPronunciation env r) = [True, False]"
    using assms(1-4) by (rule playPronunciation_flag_writes)
  have 2: "flag_writes (playPronunciation_alt apiKey generateContent speechCache penv r)
      = [True, False]"
    using assms(1,2,5) by (rule playPronunciation_alt_flag_writes)
  from 1 2 show ?thesis by (simp add: apply_effects_flag)
qed

theorem speaking_flag_cleared_once_witness:
  "playPronunciation local_env initial_state
     = [SetIsSpeaking True, SpeechCancel, SpeechSpeak yong, SetIsSpeaking False]
   \<and> playPronunciation cloud_ok_env cloud_state
     = [SetIsSpeaking True, CloudRequest yong False, AudioPlay, SetIsSpeaking False]
   \<and> flag_writes (playPronunciation cloud_ok_env cloud_state) = [True, False]
   \<and> isSpeaking (apply_effects (playPronunciation cloud_ok_env cloud_state) cloud_state) = False
   \<and> flag_writes (playPronunciation_alt some_key speech_answers Map.empty playing_env cloud_state)
       = [True, False]"
proof -
  have g: "\<not> isSpeaking cloud_state" "truthy (currentChar cloud_state)"
    by (simp_all add: cloud_state_def initial_state_def DEFAULT_TEXT_def currentChar_def
        characters_def nonWhitespace_def isWhiteSpace_def truthy_def)
  have a: "\<exists>ev \<in> set (audio_events (cloud cloud_ok_env)). ev \<noteq> AudioEnded"
    by (simp add: cloud_ok_env_def)
  have b: "\<forall>evs. speech cloud_ok_env = Spoken evs \<longrightarrow> length evs = 1"
    by (simp add: cloud_ok_env_def)
  have c: "ended_events playing_env = 1"
    by (simp add: playing_env_def)
  have l: "playPronunciation local_env initial_state
     = [SetIsSpeaking True, SpeechCancel, SpeechSpeak yong, SetIsSpeaking False]"
    by (simp add: playPronunciation_def fixture_defs initial_state_def DEFAULT_TEXT_def
        currentChar_def characters_def nonWhitespace_def isWhiteSpace_def truthy_def)
  have k: "playPronunciation cloud_ok_env cloud_state
     = [SetIsSpeaking True, CloudRequest yong False, AudioPlay, SetIsSpeaking False]"
    by (simp add: playPronunciation_def playCloudTTS_def cloud_try_def fixture_defs
        initial_state_def DEFAULT_TEXT_def currentChar_def characters_def nonWhitespace_def
        isWhiteSpace_def truthy_def)
  from speaking_flag_cleared_once [OF g a b c, of cloud_state some_key speech_answers Map.empty]
    l k show ?thesis by simp
qed


text \<open>
  C7 (mutual exclusion of pronunciation requests). A call made while the flag is set,
  or with no current character, does nothing: no effect, no request, no state change.
  Any other call sets the flag before anything else. In every session that starts
  with no request in flight, on a platform that fires at most one terminal event per
  utterance, at most one request is in flight at any time, and the flag is set while
  one is. When the effects of a request have all happened the flag is false again and
  the next call sets it and dispatches.
\<close>

theorem pronounce_mutual_exclusion:
  "(isSpeaking r \<or> \<not> truthy (currentChar r) \<longrightarrow>
      playPronunciation env r = [] \<and> apply_effects (playPronunciation env r) s = s
      \<and> (state x = r \<longrightarrow> speak_step x (ClickSpeak env) = x))
   \<and> (\<not> isSpeaking r \<and> truthy (currentChar r) \<longrightarrow>
      (\<exists>rest. playPronunciation env r = SetIsSpeaking True # rest))
   \<and> (running x = [] \<and> (\<forall>ev \<in> set evs. platform_ok ev) \<longrightarrow>
      length (running (speak_run x evs)) \<le> 1
      \<and> (running (speak_run x evs) \<noteq> [] \<longrightarrow> isSpeaking (state (speak_run x evs))))
   \<and> (\<not> isSpeaking r \<and> truthy (currentChar r)
      \<and> (\<exists>ev \<in> set (audio_events (cloud env)). ev \<noteq> AudioEnded)
      \<and> (\<forall>evs. speech env = Spoken evs \<longrightarrow> length evs = 1) \<longrightarrow>
      \<not> isSpeaking (apply_effects (playPronunciation env r) r)
      \<and> (\<exists>rest. playPronunciation env' (apply_effects (playPronunciation env r) r)
            = SetIsSpeaking True # rest))"
proof (intro conjI impI)
  assume g: "isSpeaking r \<or> \<not> truthy (currentChar r)"
  then show "playPronunciation env r = []" by (rule playPronunciation_guard)
  then show "apply_effects (playPronunciation env r) s = s" by (simp add: apply_effects_def)
  assume "state x = r"
  with g have "playPronunciation env (state x) = []" by (simp add: playPronunciation_guard)
  then show "speak_step x (ClickSpeak env) = x" by simp
next
  assume "\<not> isSpeaking r \<and> truthy (currentChar r)"
  then show "\<exists>rest. playPronunciation env r = SetIsSpeaking True # rest"
    by (simp add: playPronunciation_sets_first)
next
  assume a: "running x = [] \<and> (\<forall>ev \<in> set evs. platform_ok ev)"
  then have "one_in_flight x" by (simp add: one_in_flight_def)
  with a have inv: "one_in_flight (speak_run x evs)" by (simp add: speak_run_one_in_flight)
  then show "length (running (speak_run x evs)) \<le> 1" by (simp add: one_in_flight_def)
  assume "running (speak_run x evs) \<noteq> []"
  with inv show "isSpeaking (state (speak_run x evs))"
    by (cases "running (speak_run x evs)") (auto simp: one_in_flight_def)
next
  assume a: "\<not> isSpeaking r \<and> truthy (currentChar r)
      \<and> (\<exists>ev \<in> set (audio_events (cloud env)). ev \<noteq> AudioEnded)
      \<and> (\<forall>evs. speech env = Spoken evs \<longrightarrow> length evs = 1)"
  then have "flag_writes (playPronunciation env r) = [True, False]"
    by (simp add: playPronunciation_flag_writes)
  then show idle: "\<not> isSpeaking (apply_effects (playPronunciation env r) r)"
    by (simp add: apply_effects_flag)
  from a have "truthy (currentChar (apply_effects (playPronunciation env r) r))"
    by (simp add: apply_effects_currentChar)
  with idle show "\<exists>rest. playPronunciation env' (apply_effects (playPronunciation env r) r)
      = SetIsSpeaking True # rest"
    by (rule playPronunciation_sets_first)
qed

theorem pronounce_mutual_exclusion_witness:
  "isSpeaking speaking_state
   \<and> playPronunciation local_env speaking_state = []
   \<and> running (speak_run idle_session [ClickSpeak local_env, ClickSpeak cloud_ok_env])
       = [ [SpeechCancel, SpeechSpeak yong, SetIsSpeaking False]]
   \<and> length (running (speak_run idle_session [ClickSpeak local_env, ClickSpeak cloud_ok_env])) \<le> 1
   \<and> isSpeaking (apply_effects (playPronunciation local_env initial_state) initial_state) = False
   \<and> playPronunciation local_env
         (apply_effects (playPronunciation local_env initial_state) initial_state)
       = [SetIsSpeaking True, SpeechCancel, SpeechSpeak yong, SetIsSpeaking False]"
proof -
  have sp: "isSpeaking speaking_state"
    by (simp add: speaking_state_def)
  have l: "playPronunciation local_env initial_state
     = [SetIsSpeaking True, SpeechCancel, SpeechSpeak yong, SetIsSpeaking False]"
    by (simp add: playPronunciation_def fixture_defs initial_state_def DEFAULT_TEXT_def
        currentChar_def characters_def nonWhitespace_def isWhiteSpace_def truthy_def)
  have after: "apply_effects (playPronunciation local_env initial_state) initial_state
      = initial_state"
    unfolding l by (simp add: apply_effects_def initial_state_def)
  have run: "running (speak_run idle_session [ClickSpeak local_env, ClickSpeak cloud_ok_env])
       = [ [SpeechCancel, SpeechSpeak yong, SetIsSpeaking False]]"
    by (simp add: speak_run_def idle_session_def l)
       (simp add: playPronunciation_def)
  have ok: "\<forall>ev \<in> set [ClickSpeak local_env, ClickSpeak cloud_ok_env]. platform_ok ev"
    by (simp add: local_env_def cloud_ok_env_def)
  have idle: "running idle_session = []"
    by (simp add: idle_session_def)
  note inst = pronounce_mutual_exclusion [of speaking_state local_env initial_state idle_session
      "[ClickSpeak local_env, ClickSpeak cloud_ok_env]" local_env]
  from inst sp have 1: "playPronunciation local_env speaking_state = []" by blast
  from inst idle ok
  have 2: "length (running (speak_run idle_session [ClickSpeak local_env, ClickSpeak cloud_ok_env])) \<le> 1"
    by blast
  have quiet: "isSpeaking initial_state = False"
    by (simp add: initial_state_def)
  from sp 1 run 2 l after quiet show ?thesis by simp
qed

end
